theory Spec2Isabelle
  imports Main "HOL-Library.Word"
begin

unbundle bit_operations_syntax

section \<open>Machine types\<close>

text \<open>
  The C++ integer types of the sources on the 64-bit targets of HIP:
  \<^verbatim>\<open>char\<close> is 8 bits, \<^verbatim>\<open>int\<close> and \<^verbatim>\<open>unsigned int\<close> are 32 bits,
  \<^verbatim>\<open>long\<close>, \<^verbatim>\<open>unsigned long long\<close> and \<^verbatim>\<open>size_t\<close> are 64 bits.
  A signed \<^verbatim>\<open>int\<close> is a 32-bit word read with \<open>sint\<close> and widened with \<open>scast\<close>.
  Addresses are natural numbers and memory is a store from addresses to bytes.
\<close>

type_synonym u8 = "8 word"
type_synonym u32 = "32 word"
type_synonym i32 = "32 word"
type_synonym u64 = "64 word"
type_synonym addr = nat
type_synonym memory = "addr \<Rightarrow> u8"

section \<open>The pattern generator (memcpy.cpp, MemcpyNode::xorshift2MBPattern)\<close>

text \<open>One round of the loop body: the three shift-and-xor assignments to \<^verbatim>\<open>value\<close>.\<close>

definition xorshift :: "u32 \<Rightarrow> u32" where
  "xorshift oldValue =
     (let value = oldValue;
          value = value XOR push_bit 13 value;
          value = value XOR drop_bit 17 value;
          value = value XOR push_bit 5 value
      in value)"

text \<open>
  The loop \<^verbatim>\<open>for (n = 0; n < count; n++) { ...; oldValue = value; buffer[n] = oldValue; }\<close>
  as the list of the words it stores, in the order of \<^verbatim>\<open>n\<close>.
\<close>

primrec xorshift_loop :: "nat \<Rightarrow> u32 \<Rightarrow> u32 list" where
  "xorshift_loop 0 oldValue = []"
| "xorshift_loop (Suc k) oldValue =
     (let value = xorshift oldValue in value # xorshift_loop k value)"

text \<open>The staging buffer holds \<^verbatim>\<open>1024 * 1024 * 2\<close> bytes.\<close>

definition chunkBytes :: nat where
  "chunkBytes = 1024 * 1024 * 2"

definition xorshift2MBPattern :: "u32 \<Rightarrow> u32 list" where
  "xorshift2MBPattern seed = xorshift_loop (chunkBytes div 4) seed"

text \<open>
  The bytes of an \<^verbatim>\<open>unsigned int\<close> array as \<^verbatim>\<open>cuMemcpy\<close> and \<^verbatim>\<open>memcmp\<close>
  see them (little endian), and the \<^verbatim>\<open>unsigned int\<close> read back at index \<open>x\<close> of a
  byte buffer.
\<close>

definition word_bytes :: "u32 \<Rightarrow> u8 list" where
  "word_bytes w = [ucast w, ucast (drop_bit 8 w), ucast (drop_bit 16 w), ucast (drop_bit 24 w)]"

definition bytes_of :: "u32 list \<Rightarrow> u8 list" where
  "bytes_of ws = concat (map word_bytes ws)"

definition word_of_bytes :: "u8 \<Rightarrow> u8 \<Rightarrow> u8 \<Rightarrow> u8 \<Rightarrow> u32" where
  "word_of_bytes b0 b1 b2 b3 =
     ucast b0 OR push_bit 8 (ucast b1) OR push_bit 16 (ucast b2) OR push_bit 24 (ucast b3)"

definition word_at :: "u8 list \<Rightarrow> nat \<Rightarrow> u32" where
  "word_at bs x = word_of_bytes (bs ! (4 * x)) (bs ! (4 * x + 1)) (bs ! (4 * x + 2)) (bs ! (4 * x + 3))"

section \<open>Filling and checking a buffer (memcpy.cpp, MemcpyNode::memsetPattern, memcmpPattern)\<close>

text \<open>
  \<^verbatim>\<open>cuMemcpy\<close> between a host staging buffer (a byte list) and the buffer under test
  (a range of the store). Device calls are taken to succeed: a failing call ends the
  process in \<^verbatim>\<open>CU_ASSERT\<close> before anything a claim speaks of.
\<close>

definition cuMemcpyHtoD :: "memory \<Rightarrow> addr \<Rightarrow> u8 list \<Rightarrow> nat \<Rightarrow> memory" where
  "cuMemcpyHtoD mem dst src n = (\<lambda>a. if dst \<le> a \<and> a < dst + n then src ! (a - dst) else mem a)"

definition cuMemcpyDtoH :: "memory \<Rightarrow> addr \<Rightarrow> nat \<Rightarrow> u8 list" where
  "cuMemcpyDtoH mem src n = map mem [src..<src + n]"

text \<open>
  The chunk loop of \<^verbatim>\<open>memsetPattern\<close>. The counter \<^verbatim>\<open>n\<close> is an \<^verbatim>\<open>unsigned int\<close>
  compared with the \<^verbatim>\<open>unsigned long long\<close> chunk count, so the loop is a partial
  function: \<open>None\<close> is a loop that never ends.
\<close>

partial_function (option) memsetPattern_loop ::
  "u64 \<Rightarrow> u8 list \<Rightarrow> u32 \<Rightarrow> addr \<Rightarrow> memory \<Rightarrow> (addr \<times> memory) option" where
  "memsetPattern_loop chunkCount pattern n buf mem =
     (if ucast n < chunkCount
      then memsetPattern_loop chunkCount pattern (n + 1) (buf + chunkBytes)
             (cuMemcpyHtoD mem buf pattern chunkBytes)
      else Some (buf, mem))"

definition memsetPattern :: "memory \<Rightarrow> addr \<Rightarrow> u64 \<Rightarrow> u32 \<Rightarrow> memory option" where
  "memsetPattern mem buffer sz seed =
     (let chunkCount = sz div (1024 * 1024 * 2);
          remaining = sz - chunkCount * 1024 * 1024 * 2;
          pattern = bytes_of (xorshift2MBPattern seed)
      in case memsetPattern_loop chunkCount pattern 0 buffer mem of
           None \<Rightarrow> None
         | Some (buf, mem') \<Rightarrow>
             if remaining \<noteq> 0 then Some (cuMemcpyHtoD mem' buf pattern (unat remaining))
             else Some mem')"

text \<open>
  For stating what a fill leaves in the store: \<open>n\<close> bytes from \<open>buffer\<close> on hold the
  staged pattern, repeated every \<open>chunkBytes\<close> bytes; the rest of the store is unchanged.
\<close>

definition filled :: "memory \<Rightarrow> addr \<Rightarrow> nat \<Rightarrow> u8 list \<Rightarrow> memory" where
  "filled mem buffer n pattern =
     (\<lambda>a. if buffer \<le> a \<and> a < buffer + n then pattern ! ((a - buffer) mod chunkBytes) else mem a)"

text \<open>
  \<^verbatim>\<open>memcmpPattern\<close> either returns or prints an address and an offset and calls
  \<^verbatim>\<open>std::abort\<close>.
\<close>

datatype verdict = Returned | Aborted addr nat

text \<open>\<^verbatim>\<open>memcmp(a, b, n) != 0\<close>.\<close>

definition memcmp_differs :: "u8 list \<Rightarrow> u8 list \<Rightarrow> nat \<Rightarrow> bool" where
  "memcmp_differs a b n = (take n a \<noteq> take n b)"

text \<open>
  The inner loop \<^verbatim>\<open>for (x = 0; x < count; x++) if (devicePattern[x] != pattern[x])\<close>:
  the first \<open>x\<close> at which it would abort.
\<close>

definition first_mismatch :: "u8 list \<Rightarrow> u32 list \<Rightarrow> nat \<Rightarrow> nat option" where
  "first_mismatch devicePattern pattern count =
     find (\<lambda>x. word_at devicePattern x \<noteq> pattern ! x) [0..<count]"

text \<open>
  The chunk loop of \<^verbatim>\<open>memcmpPattern\<close>: it ends with an abort (\<open>Inl\<close>) or leaves the
  loop with the counter and the advanced pointer (\<open>Inr\<close>). In the printed address the
  product \<^verbatim>\<open>n * (1024 * 1024 * 2)\<close> is an \<^verbatim>\<open>unsigned int\<close> product.
\<close>

partial_function (option) memcmpPattern_loop ::
  "u64 \<Rightarrow> u32 list \<Rightarrow> addr \<Rightarrow> memory \<Rightarrow> u32 \<Rightarrow> addr \<Rightarrow> (verdict + u32 \<times> addr) option" where
  "memcmpPattern_loop chunkCount pattern buffer mem n buf =
     (if ucast n < chunkCount then
        (let devicePattern = cuMemcpyDtoH mem buf chunkBytes in
         if memcmp_differs (bytes_of pattern) devicePattern chunkBytes then
           (case first_mismatch devicePattern pattern (chunkBytes div 4) of
              Some x \<Rightarrow>
                Some (Inl (Aborted (buf + unat (n * (1024 * 1024 * 2)) + x * 4)
                                   ((buf - buffer) + x * 4)))
            | None \<Rightarrow>
                memcmpPattern_loop chunkCount pattern buffer mem (n + 1) (buf + chunkBytes))
         else memcmpPattern_loop chunkCount pattern buffer mem (n + 1) (buf + chunkBytes))
      else Some (Inr (n, buf)))"

definition memcmpPattern :: "memory \<Rightarrow> addr \<Rightarrow> u64 \<Rightarrow> u32 \<Rightarrow> verdict option" where
  "memcmpPattern mem buffer sz seed =
     (let chunkCount = sz div (1024 * 1024 * 2);
          remaining = sz - chunkCount * 1024 * 1024 * 2;
          pattern = xorshift2MBPattern seed
      in case memcmpPattern_loop chunkCount pattern buffer mem 0 buffer of
           None \<Rightarrow> None
         | Some (Inl v) \<Rightarrow> Some v
         | Some (Inr (n, buf)) \<Rightarrow>
             if remaining \<noteq> 0 then
               (let devicePattern = cuMemcpyDtoH mem buf (unat remaining) in
                if memcmp_differs (bytes_of pattern) devicePattern (unat remaining) then
                  (case first_mismatch devicePattern pattern (unat remaining div 4) of
                     Some x \<Rightarrow>
                       Some (Aborted (buffer + unat (n * (1024 * 1024 * 2)) + x * 4)
                                     ((buf - buffer) + x * 4))
                   | None \<Rightarrow> Some Returned)
                else Some Returned)
             else Some Returned)"

section \<open>Copy sizes (memcpy.cpp, getAdjustedCopySize and memcpyFunc; kernels.cpp, copyKernel)\<close>

datatype error = DivisionByZero | OutOfRange | AssertionFailed

text \<open>
  Modelled from the spec: the constants \<^verbatim>\<open>_MiB\<close> and \<^verbatim>\<open>defaultBufferSize\<close> are declared
  in a header that is not among the sources. Buffer sizes are given in MiB and the
  default buffer is the 64 MiB one (nvbandwidth.cpp prints "default buffer size (64MB)").
  The third constant of that header, \<^verbatim>\<open>numThreadPerBlock\<close>, is a parameter below.
\<close>

definition MiB :: u64 where
  "MiB = 1024 * 1024"

definition defaultBufferSize :: u64 where
  "defaultBufferSize = 64"

text \<open>\<^verbatim>\<open>sizeof(uint4)\<close>: four 32-bit components.\<close>

definition sizeof_uint4 :: u64 where
  "sizeof_uint4 = 16"

text \<open>\<^verbatim>\<open>unsigned int totalThreadCount = numSm * numThreadPerBlock;\<close>\<close>

definition totalThreadCount :: "i32 \<Rightarrow> u32 \<Rightarrow> u32" where
  "totalThreadCount numSm numThreadPerBlock = numSm * numThreadPerBlock"

text \<open>
  \<^verbatim>\<open>MemcpyOperationSM::getAdjustedCopySize\<close>. In the first branch \<^verbatim>\<open>numUint4\<close> is an
  \<^verbatim>\<open>int\<close>, widened again for the product with \<^verbatim>\<open>sizeof(uint4)\<close>. The division by
  \<^verbatim>\<open>totalThreadCount\<close> traps when that is zero.
\<close>

definition getAdjustedCopySize_SM :: "u32 \<Rightarrow> i32 \<Rightarrow> u64 \<Rightarrow> error + u64" where
  "getAdjustedCopySize_SM numThreadPerBlock numSm sz =
     (let ttc = totalThreadCount numSm numThreadPerBlock in
      if sz < defaultBufferSize * MiB then
        (let numUint4 = (ucast (sz div sizeof_uint4) :: i32)
         in Inr (scast numUint4 * sizeof_uint4))
      else
        (let sizeInElement = sz div sizeof_uint4 in
         if ttc = 0 then Inl DivisionByZero
         else
           (let sizeInElement = ucast ttc * (sizeInElement div ucast ttc)
            in Inr (sizeInElement * sizeof_uint4))))"

text \<open>\<^verbatim>\<open>MemcpyOperationCE::getAdjustedCopySize\<close>.\<close>

definition getAdjustedCopySize_CE :: "u64 \<Rightarrow> error + u64" where
  "getAdjustedCopySize_CE sz = Inr sz"

text \<open>
  The value \<^verbatim>\<open>copyKernel\<close> returns. In the first branch the grid is
  \<^verbatim>\<open>numUint4/block.x\<close> with \<^verbatim>\<open>block.x = std::min(numUint4, 1024)\<close>, an unsigned division
  that traps for a block of zero threads.
\<close>

definition copyKernel :: "u32 \<Rightarrow> i32 \<Rightarrow> u64 \<Rightarrow> error + u64" where
  "copyKernel numThreadPerBlock numSm sz =
     (let ttc = totalThreadCount numSm numThreadPerBlock in
      if sz < defaultBufferSize * MiB then
        (let numUint4 = (ucast (sz div sizeof_uint4) :: i32);
             block_x = (if numUint4 <s 1024 then numUint4 else 1024)
         in if block_x = 0 then Inl DivisionByZero
            else Inr (scast numUint4 * sizeof_uint4))
      else
        (let sizeInElement = sz div sizeof_uint4 in
         if ttc = 0 then Inl DivisionByZero
         else
           (let sizeInElement = ucast ttc * (sizeInElement div ucast ttc)
            in Inr (sizeInElement * sizeof_uint4))))"

text \<open>The two subclasses of \<^verbatim>\<open>MemcpyOperation\<close>: copy engine and kernel copy.\<close>

datatype mechanism = CE | SM

definition getAdjustedCopySize :: "mechanism \<Rightarrow> u32 \<Rightarrow> i32 \<Rightarrow> u64 \<Rightarrow> error + u64" where
  "getAdjustedCopySize m numThreadPerBlock numSm sz =
     (case m of CE \<Rightarrow> getAdjustedCopySize_CE sz
              | SM \<Rightarrow> getAdjustedCopySize_SM numThreadPerBlock numSm sz)"

text \<open>
  \<^verbatim>\<open>memcpyFunc\<close>: the value returned. The copy engine variant returns \<^verbatim>\<open>copySize\<close>,
  the kernel variant what \<^verbatim>\<open>copyKernel\<close> returns.
\<close>

definition memcpyFunc :: "mechanism \<Rightarrow> u32 \<Rightarrow> i32 \<Rightarrow> u64 \<Rightarrow> error + u64" where
  "memcpyFunc m numThreadPerBlock numSm copySize =
     (case m of CE \<Rightarrow> Inr copySize
              | SM \<Rightarrow> copyKernel numThreadPerBlock numSm copySize)"

section \<open>The barrier kernel (kernels.cpp, spinKernel and spinKernelDevice)\<close>

text \<open>
  \<^verbatim>\<open>unsigned long long timeoutClocks = clocksPerMs * timeoutMs;\<close> with \<^verbatim>\<open>clocksPerMs\<close>
  an \<^verbatim>\<open>int\<close>, converted to \<^verbatim>\<open>unsigned long long\<close> for the product.
\<close>

definition spinKernel_timeoutClocks :: "i32 \<Rightarrow> u64 \<Rightarrow> u64" where
  "spinKernel_timeoutClocks clocksPerMs timeoutMs = scast clocksPerMs * timeoutMs"

text \<open>
  How the loop of \<^verbatim>\<open>spinKernelDevice\<close> is left, and in which round: the latch was
  seen set, or the timeout branch was taken.
\<close>

datatype spin_exit = Released nat | TimedOut nat

text \<open>
  The device sees the latch and its clock once per round: \<open>latch i\<close> is the value
  \<^verbatim>\<open>*latch\<close> read in round \<open>i\<close> and \<open>clock i\<close> the value of \<^verbatim>\<open>clock64()\<close> there.
  A loop that is never left is \<open>None\<close>.
\<close>

partial_function (option) spin_loop ::
  "(nat \<Rightarrow> i32) \<Rightarrow> (nat \<Rightarrow> u64) \<Rightarrow> u64 \<Rightarrow> u64 \<Rightarrow> nat \<Rightarrow> spin_exit option" where
  "spin_loop latch clock timeoutClocks endTime i =
     (if latch i \<noteq> 0 then Some (Released i)
      else if timeoutClocks \<noteq> NOT 0 \<and> clock i > endTime then Some (TimedOut i)
      else spin_loop latch clock timeoutClocks endTime (Suc i))"

text \<open>\<open>clock0\<close> is the reading of \<^verbatim>\<open>clock64()\<close> that initialises \<^verbatim>\<open>endTime\<close>.\<close>

definition spinKernelDevice :: "(nat \<Rightarrow> i32) \<Rightarrow> u64 \<Rightarrow> (nat \<Rightarrow> u64) \<Rightarrow> u64 \<Rightarrow> spin_exit option" where
  "spinKernelDevice latch clock0 clock timeoutClocks =
     (let endTime = clock0 + timeoutClocks
      in spin_loop latch clock timeoutClocks endTime 0)"

text \<open>\<^verbatim>\<open>spinKernel\<close>: the run of the kernel it launches.\<close>

definition spinKernel :: "i32 \<Rightarrow> (nat \<Rightarrow> i32) \<Rightarrow> u64 \<Rightarrow> (nat \<Rightarrow> u64) \<Rightarrow> u64 \<Rightarrow> spin_exit option" where
  "spinKernel clocksPerMs latch clock0 clock timeoutMs =
     (let timeoutClocks = spinKernel_timeoutClocks clocksPerMs timeoutMs
      in spinKernelDevice latch clock0 clock timeoutClocks)"

section \<open>The orchestrator (memcpy.cpp, MemcpyOperation::doMemcpy)\<close>

text \<open>
  A \<^verbatim>\<open>MemcpyNode\<close> as \<^verbatim>\<open>doMemcpy\<close> reads it: \<^verbatim>\<open>getBufferSize()\<close>,
  \<^verbatim>\<open>getPrimaryCtx()\<close> (\<open>None\<close> is the null context of a host node, \<open>Some d\<close> the primary
  context of device \<open>d\<close>) and \<^verbatim>\<open>getNodeString()\<close>.
\<close>

record MemcpyNode =
  bufferSize :: u64
  primaryCtx :: "nat option"
  nodeString :: string

text \<open>
  The two enumerations of \<^verbatim>\<open>MemcpyOperation\<close> are declared in memcpy.h, which is not among
  the sources. The sources name \<^verbatim>\<open>PREFER_SRC_CONTEXT\<close>, \<^verbatim>\<open>SUM_BW\<close> and \<^verbatim>\<open>TOTAL_BW\<close>;
  the other preference and the other bandwidth value (the last branch of lines 348 to
  358, the mode \<open>PER_PAIR\<close> of the specification) are named here.
\<close>

datatype ContextPreference = PREFER_SRC_CONTEXT | PREFER_DST_CONTEXT

datatype BandwidthValue = PER_PAIR | SUM_BW | TOTAL_BW

text \<open>
  What the run is given from outside the sources: the constant \<^verbatim>\<open>numThreadPerBlock\<close>,
  the multiprocessor count the runtime reports under a current context, and the
  enumerator \<^verbatim>\<open>BandwidthValue::TOTAL_BW\<close> converted to \<^verbatim>\<open>bool\<close>, that is, whether its
  numeric value is not zero (the enumeration is declared in memcpy.h, which is not among
  the sources).
\<close>

record environment =
  numThreadPerBlock :: u32
  multiprocessorCount :: "nat option \<Rightarrow> i32"
  TOTAL_BW_as_bool :: bool

text \<open>The fields of a \<^verbatim>\<open>MemcpyOperation\<close> and the subclass it is.\<close>

record MemcpyOperation =
  copyMechanism :: mechanism
  loopCount :: u64
  ctxPreference :: ContextPreference
  bandwidthValue :: BandwidthValue

text \<open>
  The context chosen for a pair (lines 228 to 234): the source's context when it is
  preferred and not null, else the destination's when not null, else none.
\<close>

definition select_context :: "ContextPreference \<Rightarrow> MemcpyNode \<Rightarrow> MemcpyNode \<Rightarrow> nat option" where
  "select_context pref srcNode dstNode =
     (if pref = PREFER_SRC_CONTEXT \<and> primaryCtx srcNode \<noteq> None then primaryCtx srcNode
      else if primaryCtx dstNode \<noteq> None then primaryCtx dstNode
      else None)"

text \<open>
  The first loop of \<^verbatim>\<open>doMemcpy\<close> over the pairs. \<open>cur\<close> is the current context, which
  \<^verbatim>\<open>hipCtxSetCurrent\<close> changes only for a pair that has a context. The size handed to
  \<^verbatim>\<open>getAdjustedCopySize\<close> is \<open>size0\<close>, the value of \<^verbatim>\<open>srcNodes[0]->getBufferSize()\<close>,
  for every pair. The result is \<^verbatim>\<open>contexts\<close> and \<^verbatim>\<open>finalCopySize\<close>.
\<close>

fun setup_loop ::
  "environment \<Rightarrow> MemcpyOperation \<Rightarrow> u64 \<Rightarrow> (MemcpyNode \<times> MemcpyNode) list \<Rightarrow> nat option
     \<Rightarrow> error + (nat option list \<times> u64 list)" where
  "setup_loop env op size0 [] cur = Inr ([], [])"
| "setup_loop env op size0 ((srcNode, dstNode) # pairs) cur =
     (let c = select_context (ctxPreference op) srcNode dstNode;
          cur = (case c of None \<Rightarrow> cur | Some d \<Rightarrow> Some d)
      in case getAdjustedCopySize (copyMechanism op) (numThreadPerBlock env)
                (multiprocessorCount env cur) size0 of
           Inl e \<Rightarrow> Inl e
         | Inr s \<Rightarrow>
             (case setup_loop env op size0 pairs cur of
                Inl e \<Rightarrow> Inl e
              | Inr (contexts, finalCopySize) \<Rightarrow> Inr (c # contexts, s # finalCopySize)))"

text \<open>
  The timed copies of one trial (lines 276 to 285): for pair \<open>i\<close> the context
  \<^verbatim>\<open>contexts[i]\<close> is made current, the sizes of the two nodes are asserted equal and
  \<^verbatim>\<open>memcpyFunc\<close> is called with \<^verbatim>\<open>srcNodes[i]->getBufferSize()\<close>. The result is
  \<^verbatim>\<open>adjustedCopySizes\<close>.
\<close>

fun copy_loop ::
  "environment \<Rightarrow> MemcpyOperation \<Rightarrow> (MemcpyNode \<times> MemcpyNode) list \<Rightarrow> nat option list
     \<Rightarrow> error + u64 list" where
  "copy_loop env op [] contexts = Inr []"
| "copy_loop env op ((srcNode, dstNode) # pairs) contexts =
     (case contexts of
        [] \<Rightarrow> Inl OutOfRange
      | c # contexts \<Rightarrow>
          if bufferSize srcNode \<noteq> bufferSize dstNode then Inl AssertionFailed
          else
            (case memcpyFunc (copyMechanism op) (numThreadPerBlock env)
                   (multiprocessorCount env c) (bufferSize srcNode) of
               Inl e \<Rightarrow> Inl e
             | Inr s \<Rightarrow>
                 (case copy_loop env op pairs contexts of
                    Inl e \<Rightarrow> Inl e
                  | Inr adjustedCopySizes \<Rightarrow> Inr (s # adjustedCopySizes))))"

text \<open>
  The warm-up copies of a trial (lines 257 to 265) come before its timed copies: for
  each pair \<^verbatim>\<open>memcpyFunc\<close> is called with the same context and size, and its result is
  dropped.
\<close>

fun warmup_loop ::
  "environment \<Rightarrow> MemcpyOperation \<Rightarrow> (MemcpyNode \<times> MemcpyNode) list \<Rightarrow> nat option list
     \<Rightarrow> error + unit" where
  "warmup_loop env op [] contexts = Inr ()"
| "warmup_loop env op ((srcNode, dstNode) # pairs) contexts =
     (case contexts of
        [] \<Rightarrow> Inl OutOfRange
      | c # contexts \<Rightarrow>
          (case memcpyFunc (copyMechanism op) (numThreadPerBlock env)
                 (multiprocessorCount env c) (bufferSize srcNode) of
             Inl e \<Rightarrow> Inl e
           | Inr s \<Rightarrow> warmup_loop env op pairs contexts))"

text \<open>The copies of one trial: the warm-up loop, then the loop of the timed copies.\<close>

definition trial_copies ::
  "environment \<Rightarrow> MemcpyOperation \<Rightarrow> (MemcpyNode \<times> MemcpyNode) list \<Rightarrow> nat option list
     \<Rightarrow> error + u64 list" where
  "trial_copies env op pairs contexts =
     (case warmup_loop env op pairs contexts of
        Inl e \<Rightarrow> Inl e
      | Inr u \<Rightarrow> copy_loop env op pairs contexts)"

text \<open>
  Double precision arithmetic is kept abstract: \<open>'d\<close> is the type of \<^verbatim>\<open>double\<close> values,
  \<open>of_ull\<close> the conversion \<^verbatim>\<open>(double) bandwidth\<close>, \<open>scale\<close> the product with \<^verbatim>\<open>1e-9\<close>,
  \<open>fadd\<close> and \<open>fzero\<close> the sum and \<^verbatim>\<open>0.0\<close>. The class \<^verbatim>\<open>PerformanceStatistic\<close> is not among
  the sources: a statistic is the list of the samples fed to it, and \<open>metric\<close> stands for its
  \<^verbatim>\<open>returnAppropriateMetric()\<close>.
\<close>

record 'd arithmetic =
  of_ull :: "u64 \<Rightarrow> 'd"
  metric :: "'d list \<Rightarrow> 'd"
  scale :: "'d \<Rightarrow> 'd"
  fadd :: "'d \<Rightarrow> 'd \<Rightarrow> 'd"
  fzero :: 'd

text \<open>
  What the events of one trial measure, after the conversion
  \<^verbatim>\<open>(unsigned long long) elapsedWithEventsInUs\<close>: for pair \<open>i\<close> the span from
  \<^verbatim>\<open>startEvents[i]\<close> to \<^verbatim>\<open>endEvents[i]\<close>, and the span from \<^verbatim>\<open>startEvents[0]\<close> to
  \<^verbatim>\<open>totalEnd\<close>.
\<close>

record measurement =
  pairElapsedUs :: "nat \<Rightarrow> u64"
  totalElapsedUs :: u64

text \<open>
  A line sent to \<^verbatim>\<open>VERBOSE\<close>: the sample of a pair in trial \<open>n\<close> with the two node
  strings, or the total of trial \<open>n\<close>; each with the bandwidth it prints (scaled to GB/s
  in the text).
\<close>

datatype verbose_line = SampleLine nat string string u64 | TotalLine nat u64

text \<open>
  \<^verbatim>\<open>(size * loopCount * 1000ull * 1000ull) / (unsigned long long) elapsed\<close>: an unsigned
  64-bit product and a division that traps for an elapsed time of zero.
\<close>

definition bandwidth_of :: "u64 \<Rightarrow> u64 \<Rightarrow> u64 \<Rightarrow> error + u64" where
  "bandwidth_of sz loops elapsedUs =
     (if elapsedUs = 0 then Inl DivisionByZero
      else Inr ((sz * loops * 1000 * 1000) div elapsedUs))"

text \<open>
  The condition of line 311, \<^verbatim>\<open>bandwidthValue == BandwidthValue::SUM_BW ||
  BandwidthValue::TOTAL_BW || i == 0\<close>: its second operand is the enumerator itself,
  converted to \<^verbatim>\<open>bool\<close>.
\<close>

definition verbose_condition :: "environment \<Rightarrow> BandwidthValue \<Rightarrow> nat \<Rightarrow> bool" where
  "verbose_condition env bw i = (bw = SUM_BW \<or> TOTAL_BW_as_bool env \<or> i = 0)"

text \<open>
  The loop of lines 304 to 316 over the pairs of trial \<open>n\<close>, from pair \<open>i\<close> on: each
  pair's sample is appended to its statistic and, under the condition above, printed.
\<close>

fun sample_loop ::
  "'d arithmetic \<Rightarrow> environment \<Rightarrow> MemcpyOperation \<Rightarrow> nat \<Rightarrow> measurement \<Rightarrow> nat
     \<Rightarrow> (MemcpyNode \<times> MemcpyNode) list \<Rightarrow> u64 list \<Rightarrow> 'd list list
     \<Rightarrow> error + ('d list list \<times> verbose_line list)" where
  "sample_loop ar env op n m i [] adjustedCopySizes bandwidthStats = Inr ([], [])"
| "sample_loop ar env op n m i ((srcNode, dstNode) # pairs) adjustedCopySizes bandwidthStats =
     (case (adjustedCopySizes, bandwidthStats) of
        (sz # sizes, stat # stats) \<Rightarrow>
          (case bandwidth_of sz (loopCount op) (pairElapsedUs m i) of
             Inl e \<Rightarrow> Inl e
           | Inr bandwidth \<Rightarrow>
               (case sample_loop ar env op n m (Suc i) pairs sizes stats of
                  Inl e \<Rightarrow> Inl e
                | Inr (stats', out) \<Rightarrow>
                    Inr ((stat @ [of_ull ar bandwidth]) # stats',
                         (if verbose_condition env (bandwidthValue op) i
                          then [SampleLine n (nodeString srcNode) (nodeString dstNode) bandwidth]
                          else []) @ out)))
      | _ \<Rightarrow> Inl OutOfRange)"

text \<open>
  The total of a trial (lines 318 to 334), computed in mode \<^verbatim>\<open>TOTAL_BW\<close> only:
  \<^verbatim>\<open>totalSize\<close> is the \<^verbatim>\<open>size_t\<close> sum of \<^verbatim>\<open>adjustedCopySizes\<close>.
\<close>

definition total_sample ::
  "'d arithmetic \<Rightarrow> MemcpyOperation \<Rightarrow> nat \<Rightarrow> measurement \<Rightarrow> u64 list \<Rightarrow> 'd list
     \<Rightarrow> error + ('d list \<times> verbose_line list)" where
  "total_sample ar op n m adjustedCopySizes totalBandwidth =
     (if bandwidthValue op = TOTAL_BW then
        (let totalSize = foldl (+) 0 adjustedCopySizes in
         case bandwidth_of totalSize (loopCount op) (totalElapsedUs m) of
           Inl e \<Rightarrow> Inl e
         | Inr bandwidth \<Rightarrow> Inr (totalBandwidth @ [of_ull ar bandwidth], [TotalLine n bandwidth]))
      else Inr (totalBandwidth, []))"

text \<open>
  The trials, from trial \<open>n\<close> on, one per measurement (\<^verbatim>\<open>averageLoopCount\<close> is their
  number). A trial here is one whose device calls succeed and whose verification
  returns; filling, copying and checking memory are modelled above.
\<close>

fun trial_loop ::
  "'d arithmetic \<Rightarrow> environment \<Rightarrow> MemcpyOperation \<Rightarrow> (MemcpyNode \<times> MemcpyNode) list
     \<Rightarrow> nat option list \<Rightarrow> nat \<Rightarrow> measurement list \<Rightarrow> 'd list list \<Rightarrow> 'd list
     \<Rightarrow> error + ('d list list \<times> 'd list \<times> verbose_line list)" where
  "trial_loop ar env op pairs contexts n [] bandwidthStats totalBandwidth =
     Inr (bandwidthStats, totalBandwidth, [])"
| "trial_loop ar env op pairs contexts n (m # ms) bandwidthStats totalBandwidth =
     (case trial_copies env op pairs contexts of
        Inl e \<Rightarrow> Inl e
      | Inr adjustedCopySizes \<Rightarrow>
          (case sample_loop ar env op n m 0 pairs adjustedCopySizes bandwidthStats of
             Inl e \<Rightarrow> Inl e
           | Inr (stats, out1) \<Rightarrow>
               (case total_sample ar op n m adjustedCopySizes totalBandwidth of
                  Inl e \<Rightarrow> Inl e
                | Inr (total1, out2) \<Rightarrow>
                    (case trial_loop ar env op pairs contexts (Suc n) ms stats total1 of
                       Inl e \<Rightarrow> Inl e
                     | Inr (stats', total', out) \<Rightarrow> Inr (stats', total', out1 @ out2 @ out)))))"

text \<open>The value returned (lines 348 to 358).\<close>

definition reduce_bandwidth :: "'d arithmetic \<Rightarrow> BandwidthValue \<Rightarrow> 'd list list \<Rightarrow> 'd list \<Rightarrow> 'd" where
  "reduce_bandwidth ar bw bandwidthStats totalBandwidth =
     (if bw = SUM_BW then
        foldl (\<lambda>sum stat. fadd ar sum (scale ar (metric ar stat))) (fzero ar) bandwidthStats
      else if bw = TOTAL_BW then scale ar (metric ar totalBandwidth)
      else scale ar (metric ar (hd bandwidthStats)))"

text \<open>
  \<^verbatim>\<open>doMemcpy\<close> on a group of pairs (the vectors \<^verbatim>\<open>srcNodes\<close> and \<^verbatim>\<open>dstNodes\<close> side by
  side), with the measurements of its trials: the copy sizes it computes first, the
  lines it sends to \<^verbatim>\<open>VERBOSE\<close> and the value it returns. \<open>cur\<close> is the context
  current at the call. An empty group reads \<^verbatim>\<open>contexts[0]\<close> out of range.
\<close>

definition doMemcpy ::
  "'d arithmetic \<Rightarrow> environment \<Rightarrow> MemcpyOperation \<Rightarrow> nat option
     \<Rightarrow> (MemcpyNode \<times> MemcpyNode) list \<Rightarrow> measurement list
     \<Rightarrow> error + (u64 list \<times> verbose_line list \<times> 'd)" where
  "doMemcpy ar env op cur pairs ms =
     (case pairs of
        [] \<Rightarrow> Inl OutOfRange
      | (srcNode0, dstNode0) # _ \<Rightarrow>
          (case setup_loop env op (bufferSize srcNode0) pairs cur of
             Inl e \<Rightarrow> Inl e
           | Inr (contexts, finalCopySize) \<Rightarrow>
               (case trial_loop ar env op pairs contexts 0 ms (map (\<lambda>_. []) pairs) [] of
                  Inl e \<Rightarrow> Inl e
                | Inr (bandwidthStats, totalBandwidth, out) \<Rightarrow>
                    Inr (finalCopySize, out,
                         reduce_bandwidth ar (bandwidthValue op) bandwidthStats totalBandwidth))))"

text \<open>
  The two vectors a claim compares: \<^verbatim>\<open>finalCopySize\<close> as the first loop leaves it, and
  \<^verbatim>\<open>adjustedCopySizes\<close> as the timed copies of a trial leave it.
\<close>

definition finalCopySize ::
  "environment \<Rightarrow> MemcpyOperation \<Rightarrow> nat option \<Rightarrow> (MemcpyNode \<times> MemcpyNode) list
     \<Rightarrow> error + u64 list" where
  "finalCopySize env op cur pairs =
     (case pairs of
        [] \<Rightarrow> Inl OutOfRange
      | (srcNode0, dstNode0) # _ \<Rightarrow>
          (case setup_loop env op (bufferSize srcNode0) pairs cur of
             Inl e \<Rightarrow> Inl e
           | Inr (contexts, sizes) \<Rightarrow> Inr sizes))"

definition adjustedCopySizes ::
  "environment \<Rightarrow> MemcpyOperation \<Rightarrow> nat option \<Rightarrow> (MemcpyNode \<times> MemcpyNode) list
     \<Rightarrow> error + u64 list" where
  "adjustedCopySizes env op cur pairs =
     (case pairs of
        [] \<Rightarrow> Inl OutOfRange
      | (srcNode0, dstNode0) # _ \<Rightarrow>
          (case setup_loop env op (bufferSize srcNode0) pairs cur of
             Inl e \<Rightarrow> Inl e
           | Inr (contexts, sizes) \<Rightarrow> trial_copies env op pairs contexts))"

text \<open>
  For stating what the trials of a group of one pair compute: the samples of that pair,
  trial by trial, for a copy of \<open>sz\<close> bytes.
\<close>

fun single_pair_samples :: "'d arithmetic \<Rightarrow> u64 \<Rightarrow> u64 \<Rightarrow> measurement list \<Rightarrow> error + 'd list" where
  "single_pair_samples ar sz loops [] = Inr []"
| "single_pair_samples ar sz loops (m # ms) =
     (case bandwidth_of sz loops (pairElapsedUs m 0) of
        Inl e \<Rightarrow> Inl e
      | Inr bandwidth \<Rightarrow>
          (case single_pair_samples ar sz loops ms of
             Inl e \<Rightarrow> Inl e
           | Inr xs \<Rightarrow> Inr (of_ull ar bandwidth # xs)))"

section \<open>Finding and running a testcase (nvbandwidth.cpp, findTestcase and runTestcase)\<close>

text \<open>
  \<^verbatim>\<open>strtol(s, &p, 10)\<close> of the C library: leading white space, an optional sign, decimal
  digits; the value is clamped to the range of \<^verbatim>\<open>long\<close>; with no digit the value is 0
  and \<^verbatim>\<open>p\<close> is the start of the string. The result is the value and the rest of the
  string at \<^verbatim>\<open>p\<close>.
\<close>

definition isspace_c :: "char \<Rightarrow> bool" where
  "isspace_c c = List.member [CHR '' '', CHR 0x09, CHR 0x0A, CHR 0x0B, CHR 0x0C, CHR 0x0D] c"

definition isdigit_c :: "char \<Rightarrow> bool" where
  "isdigit_c c = List.member ''0123456789'' c"

definition digit_val :: "char \<Rightarrow> int" where
  "digit_val c = int (of_char c) - 48"

definition strtol :: "string \<Rightarrow> int \<times> string" where
  "strtol s =
     (let s1 = dropWhile isspace_c s;
          neg = (case s1 of [] \<Rightarrow> False | c # _ \<Rightarrow> c = CHR ''-'');
          s2 = (case s1 of [] \<Rightarrow> [] | c # r \<Rightarrow> if c = CHR ''-'' \<or> c = CHR ''+'' then r else s1);
          digits = takeWhile isdigit_c s2
      in if digits = [] then (0, s)
         else
           (let v = foldl (\<lambda>a c. a * 10 + digit_val c) 0 digits;
                v = (if neg then - v else v)
            in (max (- (2 ^ 63)) (min (2 ^ 63 - 1) v), dropWhile isdigit_c s2)))"

text \<open>\<^verbatim>\<open>id.c_str()\<close> as a C string ends at the first NUL.\<close>

definition c_str :: "string \<Rightarrow> string" where
  "c_str s = takeWhile (\<lambda>c. c \<noteq> CHR 0x00) s"

text \<open>
  A \<^verbatim>\<open>Testcase\<close> as the driver sees it: \<^verbatim>\<open>testKey()\<close>, \<^verbatim>\<open>filter()\<close>, and how
  \<^verbatim>\<open>run\<close> ends (the testcases are not among the sources).
\<close>

datatype run_outcome = RunReturns | RunThrows string | RunAborts

record Testcase =
  testKey :: string
  filter_result :: bool
  run :: run_outcome

text \<open>
  \<^verbatim>\<open>findTestcase\<close>: \<open>Inl\<close> is the \<^verbatim>\<open>std::string\<close> thrown. The comparison
  \<^verbatim>\<open>index >= testcases.size()\<close> converts the \<^verbatim>\<open>long\<close> to \<^verbatim>\<open>size_t\<close>.
\<close>

definition findTestcase :: "Testcase list \<Rightarrow> string \<Rightarrow> string + Testcase" where
  "findTestcase testcases ident =
     (let (index, p) = strtol (c_str ident) in
      if p \<noteq> [] then
        (case find (\<lambda>test. testKey test = ident) testcases of
           Some test \<Rightarrow> Inr test
         | None \<Rightarrow> Inl (''Testcase '' @ ident @ '' not found!''))
      else
        if nat (index mod 2 ^ 64) \<ge> length testcases
        then Inl (''Testcase index '' @ ident @ '' out of bound!'')
        else Inr (testcases ! nat index))"

text \<open>
  \<^verbatim>\<open>runTestcase\<close>: whether it returns to its caller or the process ends inside it, and
  the lines it prints itself.
\<close>

datatype exit = ReturnsNormally | ProcessAborted

definition runTestcase :: "Testcase list \<Rightarrow> string \<Rightarrow> exit \<times> string list" where
  "runTestcase testcases testcaseID =
     (case findTestcase testcases testcaseID of
        Inl s \<Rightarrow> (ReturnsNormally, [''ERROR: '' @ s])
      | Inr test \<Rightarrow>
          if \<not> filter_result test
          then (ReturnsNormally, [''Waiving '' @ testKey test @ ''.'', []])
          else
            (case run test of
               RunReturns \<Rightarrow> (ReturnsNormally, [''Running '' @ testKey test @ ''.''])
             | RunThrows s \<Rightarrow>
                 (ReturnsNormally, [''Running '' @ testKey test @ ''.'', ''ERROR: '' @ s])
             | RunAborts \<Rightarrow> (ProcessAborted, [''Running '' @ testKey test @ ''.''])))"

text \<open>The loop of \<^verbatim>\<open>main\<close> over \<^verbatim>\<open>testcasesToRun\<close>.\<close>

fun run_requested :: "Testcase list \<Rightarrow> string list \<Rightarrow> exit \<times> string list" where
  "run_requested testcases [] = (ReturnsNormally, [])"
| "run_requested testcases (testcaseIndex # rest) =
     (case runTestcase testcases testcaseIndex of
        (ProcessAborted, out) \<Rightarrow> (ProcessAborted, out)
      | (ReturnsNormally, out) \<Rightarrow>
          (case run_requested testcases rest of (e, out') \<Rightarrow> (e, out @ out')))"

section \<open>Properties of the copy sizes\<close>

lemma unat_ucast_u32_u64: "unat (ucast (t::u32) :: u64) = unat t"
proof -
  have "unat t < 2 ^ 32" using unsigned_less[of t, where 'a=nat] by simp
  then have "unat t < 2 ^ 64" by simp
  then show ?thesis
    by (simp add: unsigned_ucast_eq take_bit_nat_eq_self)
qed

lemma unat_u64_bound: "unat (x::u64) < 2 ^ 64"
  using unsigned_less[of x, where 'a=nat] by simp

lemma int_cast_small:
  assumes "unat (w::u64) < 2 ^ 31"
  shows "(scast (ucast w :: i32) :: u64) = w"
proof -
  have "uint w = int (unat w)" by (rule uint_nat)
  also have "\<dots> < int (2 ^ 31)" using assms by (simp only: of_nat_less_iff)
  also have "int (2 ^ 31) = 2 ^ 31" by simp
  finally have lt: "uint w < 2 ^ 31" .
  have a: "uint (ucast w :: i32) = uint w"
    using lt by (simp add: unsigned_ucast_eq take_bit_int_eq_self)
  have b: "sint (ucast w :: i32) = uint w"
  proof -
    have "(0::int) \<le> 2 ^ 31" by simp
    then have "- (2 ^ 31) \<le> uint w" using uint_ge_0[of w] by linarith
    then have "signed_take_bit 31 (uint w) = uint w"
      using lt by (rule signed_take_bit_int_eq_self)
    then show ?thesis by (simp add: sint_uint a)
  qed
  show ?thesis
    by (simp add: scast_eq b)
qed

lemma small_threshold: "sz < defaultBufferSize * MiB \<Longrightarrow> unat (sz div 16) < 2 ^ 31"
proof -
  assume "sz < defaultBufferSize * MiB"
  then have "unat sz < 2 ^ 26"
    by (simp add: defaultBufferSize_def MiB_def word_less_nat_alt)
  then show ?thesis by (simp add: unat_div)
qed

lemma getAdjustedCopySize_SM_small:
  assumes "sz < defaultBufferSize * MiB"
  shows "getAdjustedCopySize_SM ntpb numSm sz = Inr (sz div 16 * 16)"
  using assms small_threshold[OF assms]
  by (simp add: getAdjustedCopySize_SM_def sizeof_uint4_def int_cast_small)

lemma getAdjustedCopySize_SM_large:
  assumes "\<not> sz < defaultBufferSize * MiB" and "totalThreadCount numSm ntpb \<noteq> 0"
  shows "getAdjustedCopySize_SM ntpb numSm sz =
           Inr (ucast (totalThreadCount numSm ntpb)
                  * (sz div 16 div ucast (totalThreadCount numSm ntpb)) * 16)"
  using assms by (simp add: getAdjustedCopySize_SM_def sizeof_uint4_def Let_def)

lemma unat_round16: "unat ((x::u64) div 16 * 16) = unat x div 16 * 16"
proof -
  have "unat x div 16 * 16 \<le> unat x" by simp
  also have "unat x < 2 ^ 64" by (rule unat_u64_bound)
  finally have "unat (x div 16) * unat (16::u64) < 2 ^ LENGTH(64)" by (simp add: unat_div)
  then have "unat (x div 16 * 16) = unat (x div 16) * unat (16::u64)"
    by (rule iffD1[OF unat_mult_lem])
  then show ?thesis by (simp add: unat_div)
qed

lemma unat_truncated:
  fixes x :: u64 and t :: u32
  shows "unat (ucast t * (x div 16 div ucast t) * 16) = unat t * (unat x div 16 div unat t) * 16"
proof -
  let ?T = "ucast t :: u64"
  have T: "unat ?T = unat t" by (rule unat_ucast_u32_u64)
  have x: "unat x < 2 ^ 64" by (rule unat_u64_bound)
  have q: "unat (x div 16 div ?T) = unat x div 16 div unat t"
    by (simp add: unat_div T)
  have le1: "unat t * (unat x div 16 div unat t) \<le> unat x div 16" by simp
  have le2: "unat t * (unat x div 16 div unat t) \<le> unat x"
    by (rule order_trans[OF le1 div_le_dividend])
  have "unat t * (unat x div 16 div unat t) < 2 ^ 64"
    using le2 x by (rule le_less_trans)
  then have "unat ?T * unat (x div 16 div ?T) < 2 ^ LENGTH(64)"
    by (simp add: q T)
  then have "unat (?T * (x div 16 div ?T)) = unat ?T * unat (x div 16 div ?T)"
    by (rule iffD1[OF unat_mult_lem])
  then have m1: "unat (?T * (x div 16 div ?T)) = unat t * (unat x div 16 div unat t)"
    by (simp only: q T)
  have "unat t * (unat x div 16 div unat t) * 16 \<le> unat x div 16 * 16"
    using le1 by simp
  also have "\<dots> \<le> unat x" by simp
  finally have "unat t * (unat x div 16 div unat t) * 16 < 2 ^ 64"
    using x by (rule le_less_trans)
  then have "unat (?T * (x div 16 div ?T)) * unat (16::u64) < 2 ^ LENGTH(64)"
    by (simp add: m1)
  then have "unat (?T * (x div 16 div ?T) * 16) = unat (?T * (x div 16 div ?T)) * unat (16::u64)"
    by (rule iffD1[OF unat_mult_lem])
  then show ?thesis by (simp add: m1)
qed

lemma truncate_eq_iff:
  fixes x t :: nat
  assumes "0 < t"
  shows "(t * (x div 16 div t) * 16 = x) = (16 * t dvd x)"
proof -
  have "x div 16 div t = x div (16 * t)" by (simp add: div_mult2_eq)
  then have "t * (x div 16 div t) * 16 = (16 * t) * (x div (16 * t))" by simp
  also have "\<dots> = x - x mod (16 * t)" by (simp add: minus_mod_eq_mult_div)
  finally have e: "t * (x div 16 div t) * 16 = x - x mod (16 * t)" .
  have "x mod (16 * t) \<le> x" by simp
  then have "(x - x mod (16 * t) = x) = (x mod (16 * t) = 0)" by linarith
  then show ?thesis by (simp add: e dvd_eq_mod_eq_0)
qed

text \<open>
  Claim C5. For every requested size and every thread count of a device,
  \<^verbatim>\<open>MemcpyOperationSM::getAdjustedCopySize\<close> returns a value that is at most the requested
  size and a multiple of the 16 bytes of an element; for a size of at least
  \<^verbatim>\<open>defaultBufferSize\<close> MiB the result is the requested size exactly when that is a
  multiple of 16 times the thread count. (A thread count of zero is a division by zero
  in the second branch, so the premise asks for a small size or a thread count that
  is not zero.)
\<close>

theorem getAdjustedCopySize_SM_adjusted:
  assumes "sz < defaultBufferSize * MiB \<or> totalThreadCount numSm ntpb \<noteq> 0"
  shows "\<exists>r. getAdjustedCopySize_SM ntpb numSm sz = Inr r
            \<and> r \<le> sz \<and> 16 dvd unat r
            \<and> (defaultBufferSize * MiB \<le> sz \<longrightarrow>
                 (r = sz) = (16 * unat (totalThreadCount numSm ntpb) dvd unat sz))"
proof (cases "sz < defaultBufferSize * MiB")
  case True
  have "sz div 16 * 16 \<le> sz" by (rule word_div_mult_le)
  moreover have "16 dvd unat (sz div 16 * 16)" by (simp add: unat_round16)
  moreover have "\<not> defaultBufferSize * MiB \<le> sz" using True by (simp add: not_le)
  ultimately show ?thesis
    using getAdjustedCopySize_SM_small[OF True] by simp
next
  case False
  let ?t = "totalThreadCount numSm ntpb"
  let ?r = "ucast ?t * (sz div 16 div ucast ?t) * 16 :: u64"
  from False assms have t: "?t \<noteq> 0" by simp
  then have tpos: "0 < unat ?t" by (simp add: unat_gt_0)
  have u: "unat ?r = unat ?t * (unat sz div 16 div unat ?t) * 16" by (rule unat_truncated)
  have "unat ?t * (unat sz div 16 div unat ?t) \<le> unat sz div 16" by simp
  then have "unat ?t * (unat sz div 16 div unat ?t) * 16 \<le> unat sz div 16 * 16" by simp
  also have "\<dots> \<le> unat sz" by simp
  finally have le: "?r \<le> sz" by (simp add: word_le_nat_alt u)
  have d: "16 dvd unat ?r" by (simp add: u)
  have "(?r = sz) = (unat ?r = unat sz)" by (rule word_unat_eq_iff)
  also have "\<dots> = (16 * unat ?t dvd unat sz)"
    unfolding u by (rule truncate_eq_iff[OF tpos])
  finally have e: "(?r = sz) = (16 * unat ?t dvd unat sz)" .
  show ?thesis
    using getAdjustedCopySize_SM_large[OF False t] le d e by simp
qed

theorem getAdjustedCopySize_SM_adjusted_witness:
  "((64 * 1024 * 1024 + 32 :: u64) < defaultBufferSize * MiB \<or> totalThreadCount 108 512 \<noteq> 0)
   \<and> (\<exists>r. getAdjustedCopySize_SM 512 108 (64 * 1024 * 1024 + 32) = Inr r
            \<and> r \<le> 64 * 1024 * 1024 + 32 \<and> 16 dvd unat r
            \<and> r \<noteq> 64 * 1024 * 1024 + 32)"
proof -
  have h: "(64 * 1024 * 1024 + 32 :: u64) < defaultBufferSize * MiB \<or> totalThreadCount 108 512 \<noteq> 0"
    by (simp add: totalThreadCount_def)
  have n: "\<not> (16 * unat (totalThreadCount 108 512) dvd unat (64 * 1024 * 1024 + 32 :: u64))"
    by (simp add: totalThreadCount_def)
  have g: "defaultBufferSize * MiB \<le> (64 * 1024 * 1024 + 32 :: u64)"
    by (simp add: defaultBufferSize_def MiB_def)
  show ?thesis
    using h n g getAdjustedCopySize_SM_adjusted[OF h] by auto
qed

section \<open>Properties of the barrier kernel\<close>

lemma scast_int_eq_1:
  assumes "(scast (c::i32) :: u64) = 1"
  shows "c = 1"
proof -
  have up: "is_up (scast :: i32 \<Rightarrow> u64)" by (simp add: is_up)
  have "sint (scast c :: u64) = sint c" by (rule sint_up_scast[OF up])
  then have "sint c = 1" using assms by simp
  then have "sint c = sint (1::i32)" by simp
  then show ?thesis by (rule signed_word_eqI)
qed

text \<open>
  With a timeout of \<^verbatim>\<open>~0\<close> milliseconds the product is the sentinel \<^verbatim>\<open>~0ULL\<close> for one
  clock rate only, that of 1 kHz.
\<close>

lemma timeoutClocks_sentinel_iff:
  "(spinKernel_timeoutClocks clocksPerMs (NOT 0) = NOT 0) = (clocksPerMs = 1)"
proof
  assume "spinKernel_timeoutClocks clocksPerMs (NOT 0) = NOT 0"
  then have "- (scast clocksPerMs :: u64) = - 1"
    by (simp add: spinKernel_timeoutClocks_def)
  then have "(scast clocksPerMs :: u64) = 1" by (simp only: neg_equal_iff_equal)
  then show "clocksPerMs = 1" by (rule scast_int_eq_1)
next
  assume "clocksPerMs = 1"
  then show "spinKernel_timeoutClocks clocksPerMs (NOT 0) = NOT 0"
    by (simp add: spinKernel_timeoutClocks_def)
qed

text \<open>
  When \<^verbatim>\<open>timeoutClocks\<close> is the sentinel, the loop of \<^verbatim>\<open>spinKernelDevice\<close> is left only
  by a latch that is set.
\<close>

lemma spin_loop_sentinel:
  "spin_loop latch clock timeoutClocks endTime i = Some y \<Longrightarrow>
     timeoutClocks = NOT 0 \<longrightarrow> (\<exists>k. y = Released k \<and> latch k \<noteq> 0)"
  by (erule spin_loop.raw_induct[rotated]) (auto split: if_splits)

text \<open>
  Claim C8, at a clock rate of 1.7 GHz (\<^verbatim>\<open>clocksPerMs = 1700000\<close>) and a timeout of
  \<^verbatim>\<open>~0\<close>: the product is not the sentinel \<^verbatim>\<open>~0ULL\<close>, and the kernel, launched when the
  device clock reads \<open>10^10\<close>, leaves the loop in its first round by the timeout branch
  although the latch is never set.
\<close>

theorem spinKernel_timeout_not_disabled:
  "spinKernel_timeoutClocks 1700000 (NOT 0) = 18446744073707851616
   \<and> spinKernel_timeoutClocks 1700000 (NOT 0) \<noteq> NOT 0
   \<and> spinKernel 1700000 (\<lambda>i. 0) 10000000000 (\<lambda>i. 10000000001 + of_nat i) (NOT 0)
       = Some (TimedOut 0)"
  by (simp add: spinKernel_def spinKernelDevice_def spinKernel_timeoutClocks_def spin_loop.simps)

section \<open>Properties of the testcase driver\<close>

lemma findTestcase_not_found:
  assumes "snd (strtol (c_str ident)) \<noteq> []" and "\<forall>test \<in> set testcases. testKey test \<noteq> ident"
  shows "findTestcase testcases ident = Inl (''Testcase '' @ ident @ '' not found!'')"
proof -
  have "find (\<lambda>test. testKey test = ident) testcases = None"
    using assms(2) by (simp add: find_None_iff)
  then show ?thesis
    using assms(1) by (cases "strtol (c_str ident)") (simp add: findTestcase_def)
qed

lemma findTestcase_out_of_bound:
  assumes "snd (strtol (c_str ident)) = []" and "int (length testcases) \<le> fst (strtol (c_str ident))"
  shows "findTestcase testcases ident = Inl (''Testcase index '' @ ident @ '' out of bound!'')"
proof -
  obtain index p where s: "strtol (c_str ident) = (index, p)" by (cases "strtol (c_str ident)")
  have "index \<le> 2 ^ 63 - 1"
    using s by (auto simp add: strtol_def Let_def split: if_splits)
  then have "index mod 2 ^ 64 = index" using assms(2) s by simp
  then show ?thesis
    using assms s by (simp add: findTestcase_def)
qed

lemma runTestcase_thrown:
  "findTestcase testcases ident = Inl s \<Longrightarrow>
     runTestcase testcases ident = (ReturnsNormally, [''ERROR: '' @ s])"
  by (simp add: runTestcase_def)

lemma run_requested_thrown:
  assumes "findTestcase testcases ident = Inl s"
  shows "run_requested testcases (ident # rest) =
           (fst (run_requested testcases rest), (''ERROR: '' @ s) # snd (run_requested testcases rest))"
  using runTestcase_thrown[OF assms] by (simp split: prod.splits)

text \<open>
  Claim C9. An identifier that resolves to no testcase is a name that \<^verbatim>\<open>strtol\<close> does not
  read to its end and that is the key of no testcase, or a number read to its end that
  is at least the number of testcases. For each, \<^verbatim>\<open>findTestcase\<close> throws a string,
  \<^verbatim>\<open>runTestcase\<close> prints one line starting with ERROR and returns, and the loop of
  \<^verbatim>\<open>main\<close> goes on with the identifiers that follow.
\<close>

theorem unresolved_testcase_recoverable:
  assumes "(snd (strtol (c_str ident)) \<noteq> [] \<and> (\<forall>test \<in> set testcases. testKey test \<noteq> ident))
         \<or> (snd (strtol (c_str ident)) = [] \<and> int (length testcases) \<le> fst (strtol (c_str ident)))"
  shows "\<exists>s. findTestcase testcases ident = Inl s
           \<and> runTestcase testcases ident = (ReturnsNormally, [''ERROR: '' @ s])
           \<and> run_requested testcases (ident # rest) =
               (fst (run_requested testcases rest),
                (''ERROR: '' @ s) # snd (run_requested testcases rest))"
proof -
  from assms obtain s where s: "findTestcase testcases ident = Inl s"
    using findTestcase_not_found findTestcase_out_of_bound by blast
  show ?thesis
    using s runTestcase_thrown[OF s] run_requested_thrown[OF s] by blast
qed

lemma strtol_42: "strtol (c_str ''42'') = (42, [])"
  by (simp add: strtol_def c_str_def isspace_c_def isdigit_c_def digit_val_def)

theorem unresolved_testcase_recoverable_witness:
  "(snd (strtol (c_str ''42'')) = []
      \<and> int (length [\<lparr>testKey = ''host_to_device_memcpy_ce'', filter_result = True, run = RunReturns\<rparr>])
            \<le> fst (strtol (c_str ''42'')))
   \<and> run_requested [\<lparr>testKey = ''host_to_device_memcpy_ce'', filter_result = True, run = RunReturns\<rparr>]
         [''42'', ''0'']
       = (ReturnsNormally,
          [''ERROR: Testcase index 42 out of bound!'', ''Running host_to_device_memcpy_ce.''])"
proof -
  let ?tcs = "[\<lparr>testKey = ''host_to_device_memcpy_ce'', filter_result = True, run = RunReturns\<rparr>]"
  have h: "snd (strtol (c_str ''42'')) = [] \<and> int (length ?tcs) \<le> fst (strtol (c_str ''42''))"
    by (simp add: strtol_42)
  have r: "run_requested ?tcs [''0''] = (ReturnsNormally, [''Running host_to_device_memcpy_ce.''])"
    by (simp add: runTestcase_def findTestcase_def strtol_def c_str_def isspace_c_def
          isdigit_c_def digit_val_def)
  have f: "findTestcase ?tcs ''42'' = Inl ''Testcase index 42 out of bound!''"
    by (simp add: findTestcase_def strtol_42)
  from h have "(snd (strtol (c_str ''42'')) \<noteq> [] \<and> (\<forall>test \<in> set ?tcs. testKey test \<noteq> ''42''))
         \<or> (snd (strtol (c_str ''42'')) = [] \<and> int (length ?tcs) \<le> fst (strtol (c_str ''42'')))"
    by (rule disjI2)
  from unresolved_testcase_recoverable[OF this, of "[''0'']"] f r h
  show ?thesis by auto
qed

section \<open>Properties of the orchestrator\<close>

text \<open>
  The size a copy returns is the size \<^verbatim>\<open>getAdjustedCopySize\<close> gives for the same
  buffer size on the same device.
\<close>

lemma memcpyFunc_getAdjustedCopySize:
  "memcpyFunc m ntpb numSm sz = Inr r \<Longrightarrow> getAdjustedCopySize m ntpb numSm sz = Inr r"
  by (cases m)
     (auto simp add: memcpyFunc_def getAdjustedCopySize_def getAdjustedCopySize_CE_def
        getAdjustedCopySize_SM_def copyKernel_def Let_def split: if_splits)

text \<open>
  When every pair has a context and every source buffer has the size of the first
  one, the sizes computed in advance are the sizes the copies return.
\<close>

lemma copy_loop_setup_loop:
  assumes "copy_loop env op pairs contexts = Inr adjusted"
    and "contexts = map (\<lambda>(srcNode, dstNode). select_context (ctxPreference op) srcNode dstNode) pairs"
    and "\<forall>(srcNode, dstNode) \<in> set pairs.
           bufferSize srcNode = size0 \<and> select_context (ctxPreference op) srcNode dstNode \<noteq> None"
  shows "setup_loop env op size0 pairs cur = Inr (contexts, adjusted)"
  using assms
proof (induction pairs arbitrary: contexts adjusted cur)
  case Nil
  then show ?case by simp
next
  case (Cons p pairs)
  obtain srcNode dstNode where p: "p = (srcNode, dstNode)" by (cases p)
  from Cons.prems(2) p obtain c cs where
    cs: "contexts = c # cs" "c = select_context (ctxPreference op) srcNode dstNode"
        "cs = map (\<lambda>(srcNode, dstNode). select_context (ctxPreference op) srcNode dstNode) pairs"
    by auto
  from Cons.prems(3) p cs obtain d where d: "c = Some d" and sz: "bufferSize srcNode = size0"
    by auto
  from Cons.prems(1) p cs obtain s rest where
    s: "memcpyFunc (copyMechanism op) (numThreadPerBlock env) (multiprocessorCount env c) size0 = Inr s"
    and rest: "copy_loop env op pairs cs = Inr rest" and adj: "adjusted = s # rest"
    by (auto simp add: sz split: if_splits sum.splits)
  have sc: "select_context (ctxPreference op) srcNode dstNode = Some d"
    using cs(2) d by simp
  have ih: "setup_loop env op size0 pairs (Some d) = Inr (cs, rest)"
    using Cons.IH[OF rest cs(3)] Cons.prems(3) by simp
  have g: "getAdjustedCopySize (copyMechanism op) (numThreadPerBlock env)
             (multiprocessorCount env (Some d)) size0 = Inr s"
    using memcpyFunc_getAdjustedCopySize[OF s] d by simp
  show ?case
    unfolding p cs(1) adj d by (simp add: sc ih g)
qed

lemma setup_loop_contexts:
  "setup_loop env op size0 pairs cur = Inr (contexts, sizes) \<Longrightarrow>
     contexts = map (\<lambda>(srcNode, dstNode). select_context (ctxPreference op) srcNode dstNode) pairs"
proof (induction pairs arbitrary: cur contexts sizes)
  case Nil
  then show ?case by simp
next
  case (Cons p pairs)
  obtain srcNode dstNode where p: "p = (srcNode, dstNode)" by (cases p)
  from Cons.prems obtain cs ss s cur' where
    r: "setup_loop env op size0 pairs cur' = Inr (cs, ss)"
    and c: "contexts = select_context (ctxPreference op) srcNode dstNode # cs"
    by (auto simp add: p Let_def split: sum.splits)
  show ?case using Cons.IH[OF r] c p by simp
qed

lemma trial_copies_copy_loop:
  "trial_copies env op pairs contexts = Inr adj \<Longrightarrow> copy_loop env op pairs contexts = Inr adj"
  by (simp add: trial_copies_def split: sum.splits)

text \<open>
  For a group in which every source buffer has the size of the first one and every
  pair has a context, the sizes computed in advance are the sizes the timed copies
  return.
\<close>

lemma equal_sizes_agree:
  assumes "adjustedCopySizes env op cur ((srcNode0, dstNode0) # pairs) = Inr adj"
    and "\<forall>(srcNode, dstNode) \<in> set ((srcNode0, dstNode0) # pairs).
           bufferSize srcNode = bufferSize srcNode0
           \<and> select_context (ctxPreference op) srcNode dstNode \<noteq> None"
  shows "finalCopySize env op cur ((srcNode0, dstNode0) # pairs) = Inr adj"
proof -
  let ?pairs = "(srcNode0, dstNode0) # pairs"
  from assms(1) obtain contexts sizes where
    s: "setup_loop env op (bufferSize srcNode0) ?pairs cur = Inr (contexts, sizes)"
    and t: "trial_copies env op ?pairs contexts = Inr adj"
    by (auto simp add: adjustedCopySizes_def simp del: setup_loop.simps split: sum.splits)
  have c: "contexts = map (\<lambda>(srcNode, dstNode). select_context (ctxPreference op) srcNode dstNode) ?pairs"
    using s by (rule setup_loop_contexts)
  have "setup_loop env op (bufferSize srcNode0) ?pairs cur = Inr (contexts, adj)"
    using trial_copies_copy_loop[OF t] c assms(2) by (rule copy_loop_setup_loop)
  then show ?thesis
    by (simp add: finalCopySize_def del: setup_loop.simps)
qed

text \<open>
  Claim C2, at a group of two copy-engine pairs whose buffers are 64 and 32 bytes:
  the size computed in advance for the second pair is 64 (from \<^verbatim>\<open>srcNodes[0]\<close>), the
  size its timed copy returns is 32.
\<close>

theorem finalCopySize_differs_from_adjustedCopySizes:
  "finalCopySize
     \<lparr>numThreadPerBlock = 512, multiprocessorCount = (\<lambda>c. 108), TOTAL_BW_as_bool = True\<rparr>
     \<lparr>copyMechanism = CE, loopCount = 16, ctxPreference = PREFER_SRC_CONTEXT,
      bandwidthValue = SUM_BW\<rparr>
     None
     [(\<lparr>bufferSize = 64, primaryCtx = Some 0, nodeString = ''Device 0''\<rparr>,
       \<lparr>bufferSize = 64, primaryCtx = Some 1, nodeString = ''Device 1''\<rparr>),
      (\<lparr>bufferSize = 32, primaryCtx = Some 1, nodeString = ''Device 1''\<rparr>,
       \<lparr>bufferSize = 32, primaryCtx = Some 0, nodeString = ''Device 0''\<rparr>)]
     = Inr [64, 64]
   \<and> adjustedCopySizes
     \<lparr>numThreadPerBlock = 512, multiprocessorCount = (\<lambda>c. 108), TOTAL_BW_as_bool = True\<rparr>
     \<lparr>copyMechanism = CE, loopCount = 16, ctxPreference = PREFER_SRC_CONTEXT,
      bandwidthValue = SUM_BW\<rparr>
     None
     [(\<lparr>bufferSize = 64, primaryCtx = Some 0, nodeString = ''Device 0''\<rparr>,
       \<lparr>bufferSize = 64, primaryCtx = Some 1, nodeString = ''Device 1''\<rparr>),
      (\<lparr>bufferSize = 32, primaryCtx = Some 1, nodeString = ''Device 1''\<rparr>,
       \<lparr>bufferSize = 32, primaryCtx = Some 0, nodeString = ''Device 0''\<rparr>)]
     = Inr [64, 32]"
  by (simp add: finalCopySize_def adjustedCopySizes_def trial_copies_def select_context_def
        getAdjustedCopySize_def getAdjustedCopySize_CE_def memcpyFunc_def)

text \<open>
  Claim C6, in mode \<^verbatim>\<open>PER_PAIR\<close> with a group of two pairs and one trial, when the
  enumerator \<^verbatim>\<open>TOTAL_BW\<close> is not zero: the lines of the trial are the samples of both
  pairs, not of pair 0 alone.
\<close>

theorem per_pair_mode_prints_every_pair:
  "(case doMemcpy ar
       \<lparr>numThreadPerBlock = 512, multiprocessorCount = (\<lambda>c. 108), TOTAL_BW_as_bool = True\<rparr>
       \<lparr>copyMechanism = CE, loopCount = 16, ctxPreference = PREFER_SRC_CONTEXT,
        bandwidthValue = PER_PAIR\<rparr>
       None
       [(\<lparr>bufferSize = 1048576, primaryCtx = Some 0, nodeString = ''Device 0''\<rparr>,
         \<lparr>bufferSize = 1048576, primaryCtx = Some 1, nodeString = ''Device 1''\<rparr>),
        (\<lparr>bufferSize = 1048576, primaryCtx = Some 1, nodeString = ''Device 1''\<rparr>,
         \<lparr>bufferSize = 1048576, primaryCtx = Some 0, nodeString = ''Device 0''\<rparr>)]
       [\<lparr>pairElapsedUs = (\<lambda>i. if i = 0 then 1000 else 2000), totalElapsedUs = 2000\<rparr>]
     of Inl e \<Rightarrow> [] | Inr (sizes, out, v) \<Rightarrow> out)
   = [SampleLine 0 ''Device 0'' ''Device 1'' 16777216000,
      SampleLine 0 ''Device 1'' ''Device 0'' 8388608000]"
  by (simp add: doMemcpy_def select_context_def getAdjustedCopySize_def
        getAdjustedCopySize_CE_def memcpyFunc_def bandwidth_of_def verbose_condition_def
        total_sample_def trial_copies_def)

lemma copy_loop_single:
  "copy_loop env op [(srcNode, dstNode)] contexts = Inr adj \<Longrightarrow> \<exists>a. adj = [a]"
  by (auto split: list.splits if_splits sum.splits)

lemma trial_copies_single:
  "trial_copies env op [(srcNode, dstNode)] contexts = Inr adj \<Longrightarrow> \<exists>a. adj = [a]"
  using copy_loop_single[of env op srcNode dstNode contexts adj]
  by (simp add: trial_copies_def del: copy_loop.simps warmup_loop.simps split: sum.splits)

lemma sample_loop_single:
  "sample_loop ar env op n m i [(srcNode, dstNode)] [a] [st] =
     (case bandwidth_of a (loopCount op) (pairElapsedUs m i) of
        Inl e \<Rightarrow> Inl e
      | Inr bandwidth \<Rightarrow>
          Inr ([st @ [of_ull ar bandwidth]],
               if verbose_condition env (bandwidthValue op) i
               then [SampleLine n (nodeString srcNode) (nodeString dstNode) bandwidth] else []))"
  by (simp split: sum.splits)

lemma proj_continue:
  "map_sum id (\<lambda>(stats, tot, out). (stats, tot))
     (case r of Inl e \<Rightarrow> Inl e
              | Inr (stats', total', out) \<Rightarrow> Inr (stats', total', out1 @ out2 @ out))
   = map_sum id (\<lambda>(stats, tot, out :: verbose_line list). (stats, tot)) r"
  by (cases r) auto

lemma trial_loop_step:
  assumes "trial_copies env op pairs contexts = Inr adj"
    and "sample_loop ar env op n m 0 pairs adj bandwidthStats = Inr (stats, out1)"
    and "total_sample ar op n m adj totalBandwidth = Inr (total1, out2)"
  shows "map_sum id (\<lambda>(stats, tot, out). (stats, tot))
           (trial_loop ar env op pairs contexts n (m # ms) bandwidthStats totalBandwidth)
         = map_sum id (\<lambda>(stats, tot, out). (stats, tot))
             (trial_loop ar env op pairs contexts (Suc n) ms stats total1)"
proof -
  have "trial_loop ar env op pairs contexts n (m # ms) bandwidthStats totalBandwidth
        = (case trial_loop ar env op pairs contexts (Suc n) ms stats total1 of
             Inl e \<Rightarrow> Inl e
           | Inr (stats', total', out) \<Rightarrow> Inr (stats', total', out1 @ out2 @ out))"
    using assms by simp
  then show ?thesis by (simp only: proj_continue)
qed

lemma trial_loop_single:
  assumes "trial_copies env op [(srcNode, dstNode)] contexts = Inr [a]"
    and "bandwidthValue op = TOTAL_BW \<longrightarrow> (\<forall>m \<in> set ms. totalElapsedUs m = pairElapsedUs m 0)"
  shows "map_sum id (\<lambda>(stats, tot, out). (stats, tot))
           (trial_loop ar env op [(srcNode, dstNode)] contexts n ms [st] tot)
         = map_sum id (\<lambda>xs. ([st @ xs], if bandwidthValue op = TOTAL_BW then tot @ xs else tot))
             (single_pair_samples ar a (loopCount op) ms)"
  using assms(2)
proof (induction ms arbitrary: n st tot)
  case Nil
  then show ?case by simp
next
  case (Cons m ms)
  show ?case
  proof (cases "bandwidth_of a (loopCount op) (pairElapsedUs m 0)")
    case (Inl e)
    then show ?thesis
      by (simp add: assms(1) sample_loop_single del: copy_loop.simps sample_loop.simps)
  next
    case (Inr bw)
    let ?x = "of_ull ar bw"
    let ?tot1 = "if bandwidthValue op = TOTAL_BW then tot @ [?x] else tot"
    have tm: "bandwidthValue op = TOTAL_BW \<Longrightarrow> totalElapsedUs m = pairElapsedUs m 0"
      using Cons.prems by simp
    have ts: "total_sample ar op n m [a] tot =
                Inr (?tot1, if bandwidthValue op = TOTAL_BW then [TotalLine n bw] else [])"
      using Inr tm by (simp add: total_sample_def)
    have sl: "sample_loop ar env op n m 0 [(srcNode, dstNode)] [a] [st] =
                Inr ([st @ [?x]],
                     if verbose_condition env (bandwidthValue op) 0
                     then [SampleLine n (nodeString srcNode) (nodeString dstNode) bw] else [])"
      using Inr by (simp only: sample_loop_single sum.case)
    have rest: "bandwidthValue op = TOTAL_BW \<longrightarrow> (\<forall>m \<in> set ms. totalElapsedUs m = pairElapsedUs m 0)"
      using Cons.prems by simp
    have "map_sum id (\<lambda>(stats, tot, out). (stats, tot))
            (trial_loop ar env op [(srcNode, dstNode)] contexts n (m # ms) [st] tot)
          = map_sum id (\<lambda>(stats, tot, out). (stats, tot))
              (trial_loop ar env op [(srcNode, dstNode)] contexts (Suc n) ms [st @ [?x]] ?tot1)"
      by (rule trial_loop_step[OF assms(1) sl ts])
    also have "\<dots> = map_sum id
              (\<lambda>xs. ([(st @ [?x]) @ xs], if bandwidthValue op = TOTAL_BW then ?tot1 @ xs else ?tot1))
              (single_pair_samples ar a (loopCount op) ms)"
      by (rule Cons.IH[OF rest])
    also have "\<dots> = map_sum id
              (\<lambda>xs. ([st @ xs], if bandwidthValue op = TOTAL_BW then tot @ xs else tot))
              (single_pair_samples ar a (loopCount op) (m # ms))"
      using Inr by (cases "single_pair_samples ar a (loopCount op) ms") simp_all
    finally show ?thesis .
  qed
qed


lemma setup_loop_bandwidthValue:
  "setup_loop env (op\<lparr>bandwidthValue := b\<rparr>) size0 pairs cur = setup_loop env op size0 pairs cur"
  by (induction pairs arbitrary: cur) (auto simp add: Let_def cong: sum.case_cong)

lemma copy_loop_bandwidthValue:
  "copy_loop env (op\<lparr>bandwidthValue := b\<rparr>) pairs contexts = copy_loop env op pairs contexts"
  by (induction pairs arbitrary: contexts) (auto split: list.splits cong: sum.case_cong)

lemma warmup_loop_bandwidthValue:
  "warmup_loop env (op\<lparr>bandwidthValue := b\<rparr>) pairs contexts = warmup_loop env op pairs contexts"
  by (induction pairs arbitrary: contexts) (auto split: list.splits cong: sum.case_cong)

lemma trial_copies_bandwidthValue:
  "trial_copies env (op\<lparr>bandwidthValue := b\<rparr>) pairs contexts = trial_copies env op pairs contexts"
  by (simp add: trial_copies_def warmup_loop_bandwidthValue copy_loop_bandwidthValue
        cong: sum.case_cong)

lemma doMemcpy_value:
  "map_sum id (snd \<circ> snd) (doMemcpy ar env op cur ((srcNode, dstNode) # pairs) ms)
   = (case setup_loop env op (bufferSize srcNode) ((srcNode, dstNode) # pairs) cur of
        Inl e \<Rightarrow> Inl e
      | Inr (contexts, sizes) \<Rightarrow>
          map_sum id (\<lambda>(stats, tot). reduce_bandwidth ar (bandwidthValue op) stats tot)
            (map_sum id (\<lambda>(stats, tot, out). (stats, tot))
               (trial_loop ar env op ((srcNode, dstNode) # pairs) contexts 0 ms
                  (map (\<lambda>_. []) ((srcNode, dstNode) # pairs)) [])))"
  by (auto simp add: doMemcpy_def simp del: setup_loop.simps trial_loop.simps split: sum.splits)

lemma reduce_bandwidth_single:
  assumes "\<forall>x. fadd ar (fzero ar) x = x"
  shows "reduce_bandwidth ar bw [xs] (if bw = TOTAL_BW then xs else []) = scale ar (metric ar xs)"
  using assms by (simp add: reduce_bandwidth_def)

lemma doMemcpy_single_value:
  assumes "\<forall>m \<in> set ms. totalElapsedUs m = pairElapsedUs m 0"
    and "\<forall>x. fadd ar (fzero ar) x = x"
  shows "map_sum id (snd \<circ> snd) (doMemcpy ar env op cur [(srcNode, dstNode)] ms)
   = (case setup_loop env op (bufferSize srcNode) [(srcNode, dstNode)] cur of
        Inl e \<Rightarrow> Inl e
      | Inr (contexts, sizes) \<Rightarrow>
          if ms = [] then Inr (scale ar (metric ar []))
          else
            (case trial_copies env op [(srcNode, dstNode)] contexts of
               Inl e \<Rightarrow> Inl e
             | Inr adj \<Rightarrow>
                 map_sum id (\<lambda>xs. scale ar (metric ar xs))
                   (single_pair_samples ar (hd adj) (loopCount op) ms)))"
proof (cases "setup_loop env op (bufferSize srcNode) [(srcNode, dstNode)] cur")
  case (Inl e)
  then show ?thesis by (simp only: doMemcpy_value sum.case)
next
  case (Inr r)
  obtain contexts sizes where r: "r = (contexts, sizes)" by (cases r)
  have v: "map_sum id (snd \<circ> snd) (doMemcpy ar env op cur [(srcNode, dstNode)] ms)
        = map_sum id (\<lambda>(stats, tot). reduce_bandwidth ar (bandwidthValue op) stats tot)
            (map_sum id (\<lambda>(stats, tot, out). (stats, tot))
               (trial_loop ar env op [(srcNode, dstNode)] contexts 0 ms [[]] []))"
    using Inr r by (simp only: doMemcpy_value sum.case prod.case list.map)
  show ?thesis
  proof (cases ms)
    case Nil
    then show ?thesis
      using v Inr r reduce_bandwidth_single[OF assms(2), of "bandwidthValue op" "[]"]
      by (simp split: if_splits)
  next
    case (Cons m ms')
    show ?thesis
    proof (cases "trial_copies env op [(srcNode, dstNode)] contexts")
      case (Inl e)
      then show ?thesis
        using v Inr r Cons by (simp del: copy_loop.simps setup_loop.simps)
    next
      case adj: (Inr adj)
      then obtain a where a: "adj = [a]" using trial_copies_single by blast
      have h: "bandwidthValue op = TOTAL_BW \<longrightarrow> (\<forall>m \<in> set ms. totalElapsedUs m = pairElapsedUs m 0)"
        using assms(1) by simp
      have "map_sum id (\<lambda>(stats, tot, out). (stats, tot))
               (trial_loop ar env op [(srcNode, dstNode)] contexts 0 ms [[]] [])
            = map_sum id (\<lambda>xs. ([xs], if bandwidthValue op = TOTAL_BW then xs else []))
                (single_pair_samples ar a (loopCount op) ms)"
        using adj a trial_loop_single[OF _ h, of env srcNode dstNode contexts a ar 0 "[]" "[]"]
        by (simp del: copy_loop.simps cong: if_cong)
      then have "map_sum id (snd \<circ> snd) (doMemcpy ar env op cur [(srcNode, dstNode)] ms)
            = map_sum id (\<lambda>xs. reduce_bandwidth ar (bandwidthValue op) [xs]
                                 (if bandwidthValue op = TOTAL_BW then xs else []))
                (single_pair_samples ar a (loopCount op) ms)"
        by (cases "single_pair_samples ar a (loopCount op) ms") (simp_all add: v)
      then have "map_sum id (snd \<circ> snd) (doMemcpy ar env op cur [(srcNode, dstNode)] ms)
            = map_sum id (\<lambda>xs. scale ar (metric ar xs)) (single_pair_samples ar a (loopCount op) ms)"
        by (simp only: reduce_bandwidth_single[OF assms(2)])
      then show ?thesis
        using Inr r Cons adj a by (simp del: copy_loop.simps setup_loop.simps)
    qed
  qed
qed

text \<open>
  Claim C7. For a group of one pair whose trials measure the same span from
  \<^verbatim>\<open>startEvents[0]\<close> to \<^verbatim>\<open>totalEnd\<close> as from \<^verbatim>\<open>startEvents[0]\<close> to \<^verbatim>\<open>endEvents[0]\<close>,
  \<^verbatim>\<open>doMemcpy\<close> returns the same value (or fails alike) in the modes \<^verbatim>\<open>TOTAL_BW\<close>,
  \<^verbatim>\<open>SUM_BW\<close> and \<^verbatim>\<open>PER_PAIR\<close>, and in mode \<^verbatim>\<open>TOTAL_BW\<close> the group statistic
  holds the samples of the statistic of pair 0. The arithmetic of \<^verbatim>\<open>double\<close> is any
  one in which \<^verbatim>\<open>0.0 + x\<close> is \<open>x\<close>.
\<close>

theorem single_pair_modes_agree:
  assumes "\<forall>m \<in> set ms. totalElapsedUs m = pairElapsedUs m 0"
    and "\<forall>x. fadd ar (fzero ar) x = x"
  shows "map_sum id (snd \<circ> snd)
             (doMemcpy ar env (op\<lparr>bandwidthValue := TOTAL_BW\<rparr>) cur [(srcNode, dstNode)] ms)
           = map_sum id (snd \<circ> snd)
               (doMemcpy ar env (op\<lparr>bandwidthValue := PER_PAIR\<rparr>) cur [(srcNode, dstNode)] ms)
       \<and> map_sum id (snd \<circ> snd)
             (doMemcpy ar env (op\<lparr>bandwidthValue := SUM_BW\<rparr>) cur [(srcNode, dstNode)] ms)
           = map_sum id (snd \<circ> snd)
               (doMemcpy ar env (op\<lparr>bandwidthValue := PER_PAIR\<rparr>) cur [(srcNode, dstNode)] ms)
       \<and> (\<forall>contexts stats total out.
             trial_loop ar env (op\<lparr>bandwidthValue := TOTAL_BW\<rparr>) [(srcNode, dstNode)] contexts 0 ms
               [[]] [] = Inr (stats, total, out)
             \<longrightarrow> stats = [total])"
proof (intro conjI allI impI)
  show "map_sum id (snd \<circ> snd)
             (doMemcpy ar env (op\<lparr>bandwidthValue := TOTAL_BW\<rparr>) cur [(srcNode, dstNode)] ms)
           = map_sum id (snd \<circ> snd)
               (doMemcpy ar env (op\<lparr>bandwidthValue := PER_PAIR\<rparr>) cur [(srcNode, dstNode)] ms)"
    by (simp add: doMemcpy_single_value[OF assms] setup_loop_bandwidthValue
          trial_copies_bandwidthValue del: setup_loop.simps copy_loop.simps
          cong: sum.case_cong prod.case_cong if_cong)
  show "map_sum id (snd \<circ> snd)
             (doMemcpy ar env (op\<lparr>bandwidthValue := SUM_BW\<rparr>) cur [(srcNode, dstNode)] ms)
           = map_sum id (snd \<circ> snd)
               (doMemcpy ar env (op\<lparr>bandwidthValue := PER_PAIR\<rparr>) cur [(srcNode, dstNode)] ms)"
    by (simp add: doMemcpy_single_value[OF assms] setup_loop_bandwidthValue
          trial_copies_bandwidthValue del: setup_loop.simps copy_loop.simps
          cong: sum.case_cong prod.case_cong if_cong)
next
  fix contexts stats total out
  let ?op = "op\<lparr>bandwidthValue := TOTAL_BW\<rparr>"
  assume t: "trial_loop ar env ?op [(srcNode, dstNode)] contexts 0 ms [[]] [] = Inr (stats, total, out)"
  show "stats = [total]"
  proof (cases ms)
    case Nil
    then show ?thesis using t by simp
  next
    case (Cons m ms')
    then obtain adj where adj: "trial_copies env ?op [(srcNode, dstNode)] contexts = Inr adj"
      using t by (cases "trial_copies env ?op [(srcNode, dstNode)] contexts")
                 (simp_all del: copy_loop.simps)
    then obtain a where a: "adj = [a]" using trial_copies_single by blast
    have h: "bandwidthValue ?op = TOTAL_BW \<longrightarrow> (\<forall>m \<in> set ms. totalElapsedUs m = pairElapsedUs m 0)"
      using assms(1) by simp
    have "map_sum id (\<lambda>(stats, tot, out). (stats, tot))
               (trial_loop ar env ?op [(srcNode, dstNode)] contexts 0 ms [[]] [])
            = map_sum id (\<lambda>xs. ([xs], xs)) (single_pair_samples ar a (loopCount ?op) ms)"
      using adj a trial_loop_single[OF _ h, of env srcNode dstNode contexts a ar 0 "[]" "[]"]
      by (simp del: copy_loop.simps cong: if_cong)
    then show ?thesis
      using t by (cases "single_pair_samples ar a (loopCount ?op) ms") simp_all
  qed
qed


theorem single_pair_modes_agree_witness:
  "map_sum id (snd \<circ> snd)
       (doMemcpy \<lparr>of_ull = uint, metric = (\<lambda>xs. sum_list xs div int (length xs)), scale = (\<lambda>x. x), fadd = (+), fzero = 0\<rparr>
          \<lparr>numThreadPerBlock = 512, multiprocessorCount = (\<lambda>c. 108), TOTAL_BW_as_bool = True\<rparr>
          \<lparr>copyMechanism = CE, loopCount = 16, ctxPreference = PREFER_SRC_CONTEXT, bandwidthValue = TOTAL_BW\<rparr>
          None
          [(\<lparr>bufferSize = 1048576, primaryCtx = None, nodeString = ''Host''\<rparr>, \<lparr>bufferSize = 1048576, primaryCtx = Some 0, nodeString = ''Device 0''\<rparr>)]
          [\<lparr>pairElapsedUs = (\<lambda>i. 1000), totalElapsedUs = 1000\<rparr>, \<lparr>pairElapsedUs = (\<lambda>i. 2000), totalElapsedUs = 2000\<rparr>]) = Inr 12582912000
   \<and> map_sum id (snd \<circ> snd)
       (doMemcpy \<lparr>of_ull = uint, metric = (\<lambda>xs. sum_list xs div int (length xs)), scale = (\<lambda>x. x), fadd = (+), fzero = 0\<rparr>
          \<lparr>numThreadPerBlock = 512, multiprocessorCount = (\<lambda>c. 108), TOTAL_BW_as_bool = True\<rparr>
          \<lparr>copyMechanism = CE, loopCount = 16, ctxPreference = PREFER_SRC_CONTEXT, bandwidthValue = SUM_BW\<rparr>
          None
          [(\<lparr>bufferSize = 1048576, primaryCtx = None, nodeString = ''Host''\<rparr>, \<lparr>bufferSize = 1048576, primaryCtx = Some 0, nodeString = ''Device 0''\<rparr>)]
          [\<lparr>pairElapsedUs = (\<lambda>i. 1000), totalElapsedUs = 1000\<rparr>, \<lparr>pairElapsedUs = (\<lambda>i. 2000), totalElapsedUs = 2000\<rparr>]) = Inr 12582912000
   \<and> map_sum id (snd \<circ> snd)
       (doMemcpy \<lparr>of_ull = uint, metric = (\<lambda>xs. sum_list xs div int (length xs)), scale = (\<lambda>x. x), fadd = (+), fzero = 0\<rparr>
          \<lparr>numThreadPerBlock = 512, multiprocessorCount = (\<lambda>c. 108), TOTAL_BW_as_bool = True\<rparr>
          \<lparr>copyMechanism = CE, loopCount = 16, ctxPreference = PREFER_SRC_CONTEXT, bandwidthValue = PER_PAIR\<rparr>
          None
          [(\<lparr>bufferSize = 1048576, primaryCtx = None, nodeString = ''Host''\<rparr>, \<lparr>bufferSize = 1048576, primaryCtx = Some 0, nodeString = ''Device 0''\<rparr>)]
          [\<lparr>pairElapsedUs = (\<lambda>i. 1000), totalElapsedUs = 1000\<rparr>, \<lparr>pairElapsedUs = (\<lambda>i. 2000), totalElapsedUs = 2000\<rparr>]) = Inr 12582912000"
proof -
  let ?ar = "\<lparr>of_ull = uint, metric = (\<lambda>xs. sum_list xs div int (length xs)), scale = (\<lambda>x. x), fadd = (+), fzero = 0\<rparr>"
  let ?ms = "[\<lparr>pairElapsedUs = (\<lambda>i. 1000), totalElapsedUs = 1000\<rparr>, \<lparr>pairElapsedUs = (\<lambda>i. 2000), totalElapsedUs = 2000\<rparr>]"
  have h1: "\<forall>m \<in> set ?ms. totalElapsedUs m = pairElapsedUs m 0" by simp
  have h2: "\<forall>x. fadd ?ar (fzero ?ar) x = x" by simp
  have e: "map_sum id (snd \<circ> snd)
       (doMemcpy \<lparr>of_ull = uint, metric = (\<lambda>xs. sum_list xs div int (length xs)), scale = (\<lambda>x. x), fadd = (+), fzero = 0\<rparr>
          \<lparr>numThreadPerBlock = 512, multiprocessorCount = (\<lambda>c. 108), TOTAL_BW_as_bool = True\<rparr>
          \<lparr>copyMechanism = CE, loopCount = 16, ctxPreference = PREFER_SRC_CONTEXT, bandwidthValue = PER_PAIR\<rparr>
          None
          [(\<lparr>bufferSize = 1048576, primaryCtx = None, nodeString = ''Host''\<rparr>, \<lparr>bufferSize = 1048576, primaryCtx = Some 0, nodeString = ''Device 0''\<rparr>)]
          [\<lparr>pairElapsedUs = (\<lambda>i. 1000), totalElapsedUs = 1000\<rparr>, \<lparr>pairElapsedUs = (\<lambda>i. 2000), totalElapsedUs = 2000\<rparr>]) = Inr 12582912000"
    by (simp add: doMemcpy_def select_context_def getAdjustedCopySize_def
          getAdjustedCopySize_CE_def memcpyFunc_def bandwidth_of_def verbose_condition_def
          total_sample_def reduce_bandwidth_def trial_copies_def)
  show ?thesis
    using single_pair_modes_agree[OF h1 h2, of
        "\<lparr>numThreadPerBlock = 512, multiprocessorCount = (\<lambda>c. 108), TOTAL_BW_as_bool = True\<rparr>"
        "\<lparr>copyMechanism = CE, loopCount = 16, ctxPreference = PREFER_SRC_CONTEXT, bandwidthValue = PER_PAIR\<rparr>" None
        "\<lparr>bufferSize = 1048576, primaryCtx = None, nodeString = ''Host''\<rparr>"
        "\<lparr>bufferSize = 1048576, primaryCtx = Some 0, nodeString = ''Device 0''\<rparr>"] e
    by simp
qed

section \<open>Properties of the pattern\<close>

lemma word_of_bytes_word_bytes:
  "word_of_bytes (ucast w) (ucast (drop_bit 8 w)) (ucast (drop_bit 16 w)) (ucast (drop_bit 24 w)) = w"
proof (rule bit_word_eqI)
  fix n
  assume "n < LENGTH(32)"
  then consider "n < 8" | "8 \<le> n" "n < 16" | "16 \<le> n" "n < 24" | "24 \<le> n" "n < 32"
    by fastforce
  then show "bit (word_of_bytes (ucast w) (ucast (drop_bit 8 w)) (ucast (drop_bit 16 w))
                   (ucast (drop_bit 24 w))) n = bit w n"
    by cases (auto simp add: word_of_bytes_def bit_simps)
qed

lemma byte0: "ucast (word_of_bytes b0 b1 b2 b3) = b0"
  by (rule bit_word_eqI) (auto simp add: word_of_bytes_def bit_simps dest: bit_imp_le_length)

lemma byte1: "ucast (drop_bit 8 (word_of_bytes b0 b1 b2 b3)) = b1"
  by (rule bit_word_eqI) (auto simp add: word_of_bytes_def bit_simps dest: bit_imp_le_length)

lemma byte2: "ucast (drop_bit 16 (word_of_bytes b0 b1 b2 b3)) = b2"
  by (rule bit_word_eqI) (auto simp add: word_of_bytes_def bit_simps dest: bit_imp_le_length)

lemma byte3: "ucast (drop_bit 24 (word_of_bytes b0 b1 b2 b3)) = b3"
  by (rule bit_word_eqI) (auto simp add: word_of_bytes_def bit_simps dest: bit_imp_le_length)

lemma word_bytes_word_of_bytes:
  "word_bytes (word_of_bytes b0 b1 b2 b3) = [b0, b1, b2, b3]"
  by (simp add: word_bytes_def byte0 byte1 byte2 byte3)

text \<open>Each of the three steps of a round can be undone, so a round is injective.\<close>

lemma undo_shl13:
  "(v XOR push_bit 13 v) XOR push_bit 13 (v XOR push_bit 13 v)
     XOR push_bit 26 (v XOR push_bit 13 v) = (v::u32)"
  by (rule bit_word_eqI) (auto simp add: bit_simps)

lemma undo_shr17:
  "(v XOR drop_bit 17 v) XOR drop_bit 17 (v XOR drop_bit 17 v) = (v::u32)"
  by (rule bit_word_eqI) (auto simp add: bit_simps)

lemma undo_shl5:
  "(v XOR push_bit 5 v) XOR push_bit 5 (v XOR push_bit 5 v) XOR push_bit 10 (v XOR push_bit 5 v)
     XOR push_bit 15 (v XOR push_bit 5 v) XOR push_bit 20 (v XOR push_bit 5 v)
     XOR push_bit 25 (v XOR push_bit 5 v) XOR push_bit 30 (v XOR push_bit 5 v) = (v::u32)"
  by (rule bit_word_eqI) (auto simp add: bit_simps)

lemma shl13_inj: "(v::u32) XOR push_bit 13 v = w XOR push_bit 13 w \<Longrightarrow> v = w"
  using undo_shl13[of v] undo_shl13[of w] by simp

lemma shr17_inj: "(v::u32) XOR drop_bit 17 v = w XOR drop_bit 17 w \<Longrightarrow> v = w"
  using undo_shr17[of v] undo_shr17[of w] by simp

lemma shl5_inj: "(v::u32) XOR push_bit 5 v = w XOR push_bit 5 w \<Longrightarrow> v = w"
  using undo_shl5[of v] undo_shl5[of w] by simp

lemma xorshift_inj:
  assumes "xorshift v = xorshift w"
  shows "v = w"
proof -
  let ?a = "\<lambda>v::u32. v XOR push_bit 13 v"
  let ?b = "\<lambda>v::u32. v XOR drop_bit 17 v"
  have "?b (?a v) XOR push_bit 5 (?b (?a v)) = ?b (?a w) XOR push_bit 5 (?b (?a w))"
    using assms by (simp add: xorshift_def Let_def)
  then have "?b (?a v) = ?b (?a w)" by (rule shl5_inj)
  then have "?a v = ?a w" by (rule shr17_inj)
  then show ?thesis by (rule shl13_inj)
qed

lemma length_xorshift_loop: "length (xorshift_loop k oldValue) = k"
  by (induction k arbitrary: oldValue) (simp_all add: Let_def)

lemma xorshift_loop_first: "0 < k \<Longrightarrow> xorshift_loop k oldValue ! 0 = xorshift oldValue"
  by (cases k) (simp_all add: Let_def)

lemma length_xorshift2MBPattern: "length (xorshift2MBPattern seed) = 524288"
  by (simp add: xorshift2MBPattern_def length_xorshift_loop chunkBytes_def)

lemma xorshift2MBPattern_first: "xorshift2MBPattern seed ! 0 = xorshift seed"
  by (simp add: xorshift2MBPattern_def xorshift_loop_first chunkBytes_def)

lemma length_word_bytes: "length (word_bytes w) = 4"
  by (simp add: word_bytes_def)

lemma length_bytes_of: "length (bytes_of ws) = 4 * length ws"
  by (induction ws) (simp_all add: bytes_of_def length_word_bytes)

lemma bytes_of_nth:
  "x < length ws \<Longrightarrow> j < 4 \<Longrightarrow> bytes_of ws ! (4 * x + j) = word_bytes (ws ! x) ! j"
proof (induction ws arbitrary: x)
  case Nil
  then show ?case by simp
next
  case (Cons w ws)
  have c: "bytes_of (w # ws) = word_bytes w @ bytes_of ws" by (simp add: bytes_of_def)
  show ?case
  proof (cases x)
    case 0
    then show ?thesis using Cons.prems by (simp add: c nth_append length_word_bytes)
  next
    case (Suc y)
    then have "bytes_of (w # ws) ! (4 * x + j) = bytes_of ws ! (4 * y + j)"
      by (simp add: c nth_append length_word_bytes)
    then show ?thesis using Cons.IH[of y] Cons.prems Suc by simp
  qed
qed

lemma word_at_bytes_of: "x < length ws \<Longrightarrow> word_at (bytes_of ws) x = ws ! x"
  using bytes_of_nth[of x ws 0] bytes_of_nth[of x ws 1] bytes_of_nth[of x ws 2]
        bytes_of_nth[of x ws 3]
  by (simp add: word_at_def word_bytes_def word_of_bytes_word_bytes)

lemma word_bytes_word_at:
  "word_bytes (word_at bs x) = [bs ! (4 * x), bs ! (4 * x + 1), bs ! (4 * x + 2), bs ! (4 * x + 3)]"
  by (simp add: word_at_def word_bytes_word_of_bytes)

text \<open>A byte buffer whose words are those of \<open>ws\<close> holds the bytes of \<open>ws\<close>.\<close>

lemma bytes_of_eqI:
  assumes "length bs = 4 * length ws" and "\<forall>x < length ws. word_at bs x = ws ! x"
  shows "bs = bytes_of ws"
proof (rule nth_equalityI)
  show "length bs = length (bytes_of ws)" by (simp add: assms(1) length_bytes_of)
next
  fix i
  assume i: "i < length bs"
  define x where "x = i div 4"
  define j where "j = i mod 4"
  have ij: "i = 4 * x + j" and j: "j < 4" by (simp_all add: x_def j_def)
  have x: "x < length ws" using i assms(1) by (simp add: x_def)
  have wb: "word_bytes (ws ! x) = [bs ! (4 * x), bs ! (4 * x + 1), bs ! (4 * x + 2), bs ! (4 * x + 3)]"
    using assms(2) x word_bytes_word_at[of bs x] by simp
  from j consider (0) "j = 0" | (1) "j = 1" | (2) "j = 2" | (3) "j = 3" by linarith
  then have "word_bytes (ws ! x) ! j = bs ! (4 * x + j)"
  proof cases
    case 0
    then show ?thesis by (simp add: wb)
  next
    case 1
    then show ?thesis by (simp add: wb)
  next
    case 2
    then show ?thesis by (simp add: wb)
  next
    case 3
    then show ?thesis by (simp add: wb)
  qed
  then show "bs ! i = bytes_of ws ! i"
    by (simp add: ij bytes_of_nth[OF x j])
qed

section \<open>Properties of the copies between staging buffer and store\<close>

lemma length_cuMemcpyDtoH: "length (cuMemcpyDtoH mem src n) = n"
  by (simp add: cuMemcpyDtoH_def)

lemma cuMemcpyDtoH_nth: "i < n \<Longrightarrow> cuMemcpyDtoH mem src n ! i = mem (src + i)"
  by (simp add: cuMemcpyDtoH_def)

lemma cuMemcpyDtoH_eqI:
  assumes "n \<le> length bs" and "\<forall>i < n. mem (src + i) = bs ! i"
  shows "cuMemcpyDtoH mem src n = take n bs"
  by (rule nth_equalityI) (simp_all add: length_cuMemcpyDtoH cuMemcpyDtoH_nth assms)

section \<open>Properties of the chunk loops\<close>

lemma unat_u32_bound: "unat (n::u32) < 2 ^ 32"
  using unsigned_less[of n, where 'a=nat] by simp

lemma counter_less_iff: "(ucast (n::u32) < (cnt::u64)) = (unat n < unat cnt)"
  by (simp add: word_less_nat_alt unat_ucast_u32_u64)

lemma counter_Suc:
  assumes "unat (n::u32) < unat (cnt::u64)" and "unat cnt < 2 ^ 32"
  shows "unat (n + 1) = Suc (unat n)"
proof -
  have "unat n + unat (1::u32) < 2 ^ LENGTH(32)" using assms by simp
  then have "unat (n + 1) = unat n + unat (1::u32)" by (rule iffD1[OF unat_add_lem])
  then show ?thesis by simp
qed

lemma chunkCount_unat: "unat ((sz::u64) div 2097152) = unat sz div chunkBytes"
  by (simp add: unat_div chunkBytes_def)

lemma chunkCount_bound:
  assumes "(sz::u64) < 2 ^ 53"
  shows "unat (sz div 2097152) < 2 ^ 32"
proof -
  have "unat sz < 2 ^ 53" using assms by (simp add: word_less_nat_alt)
  then have "unat sz < 2 ^ 32 * 2097152" by simp
  then have "unat sz div 2097152 < 2 ^ 32" by (rule less_mult_imp_div_less)
  then show ?thesis by (simp add: unat_div)
qed

lemma remaining_unat:
  "unat ((sz::u64) - sz div 2097152 * 2097152) = unat sz mod chunkBytes"
proof -
  let ?c = "sz div 2097152"
  have "unat ?c * unat (2097152::u64) \<le> unat sz" by (simp add: unat_div)
  also have "unat sz < 2 ^ LENGTH(64)" using unat_u64_bound[of sz] by simp
  finally have "unat (?c * 2097152) = unat ?c * unat (2097152::u64)"
    by (rule iffD1[OF unat_mult_lem])
  then have m: "unat (?c * 2097152) = unat sz div 2097152 * 2097152" by (simp add: unat_div)
  then have "?c * 2097152 \<le> sz" by (simp add: word_le_nat_alt)
  then have "unat (sz - ?c * 2097152) = unat sz - unat (?c * 2097152)" by (rule unat_sub)
  also have "\<dots> = unat sz mod 2097152" by (simp add: m minus_div_mult_eq_mod)
  finally show ?thesis by (simp add: chunkBytes_def)
qed

lemma filled_nothing: "filled mem buf 0 pat = mem"
  by (rule ext) (auto simp add: filled_def)

lemma filled_chunk_more:
  "filled (cuMemcpyHtoD mem buf pat chunkBytes) (buf + chunkBytes) n pat
   = filled mem buf (chunkBytes + n) pat"
proof
  fix a
  consider "a < buf" | "buf \<le> a" "a < buf + chunkBytes" | "buf + chunkBytes \<le> a"
    by linarith
  then show "filled (cuMemcpyHtoD mem buf pat chunkBytes) (buf + chunkBytes) n pat a
             = filled mem buf (chunkBytes + n) pat a"
  proof cases
    case 1
    then show ?thesis by (simp add: filled_def cuMemcpyHtoD_def)
  next
    case 2
    then show ?thesis by (simp add: filled_def cuMemcpyHtoD_def)
  next
    case 3
    then have "a - buf = (a - (buf + chunkBytes)) + chunkBytes" by simp
    then have "(a - buf) mod chunkBytes = (a - (buf + chunkBytes)) mod chunkBytes"
      by (metis mod_add_self2)
    then show ?thesis using 3 by (auto simp add: filled_def cuMemcpyHtoD_def)
  qed
qed

text \<open>
  The chunk loop of \<^verbatim>\<open>memsetPattern\<close> ends when the chunk count fits the 32-bit counter,
  and leaves the pattern in every chunk.
\<close>

lemma memsetPattern_loop_closed:
  "unat n + k = unat cnt \<Longrightarrow> unat cnt < 2 ^ 32 \<Longrightarrow>
     memsetPattern_loop cnt pat n buf mem
       = Some (buf + k * chunkBytes, filled mem buf (k * chunkBytes) pat)"
proof (induction k arbitrary: n buf mem)
  case 0
  then have "\<not> ucast n < cnt" by (simp add: counter_less_iff)
  then show ?case
    by (subst memsetPattern_loop.simps) (simp add: filled_nothing)
next
  case (Suc k)
  then have lt: "unat n < unat cnt" by simp
  then have c: "ucast n < cnt" by (simp add: counter_less_iff)
  have "unat (n + 1) + k = unat cnt"
    using counter_Suc[OF lt Suc.prems(2)] Suc.prems(1) by simp
  then have "memsetPattern_loop cnt pat (n + 1) (buf + chunkBytes) (cuMemcpyHtoD mem buf pat chunkBytes)
       = Some (buf + chunkBytes + k * chunkBytes,
               filled (cuMemcpyHtoD mem buf pat chunkBytes) (buf + chunkBytes) (k * chunkBytes) pat)"
    using Suc.prems(2) by (rule Suc.IH)
  then show ?case
    using c by (subst memsetPattern_loop.simps) (simp add: filled_chunk_more)
qed


lemma filled_tail:
  assumes "r \<le> chunkBytes"
  shows "cuMemcpyHtoD (filled mem buf (k * chunkBytes) pat) (buf + k * chunkBytes) pat r
         = filled mem buf (k * chunkBytes + r) pat"
proof
  fix a
  consider "a < buf + k * chunkBytes" | "buf + k * chunkBytes \<le> a" "a < buf + k * chunkBytes + r"
    | "buf + k * chunkBytes + r \<le> a"
    by linarith
  then show "cuMemcpyHtoD (filled mem buf (k * chunkBytes) pat) (buf + k * chunkBytes) pat r a
             = filled mem buf (k * chunkBytes + r) pat a"
  proof cases
    case 1
    then show ?thesis by (simp add: filled_def cuMemcpyHtoD_def)
  next
    case 2
    then have e: "a - buf = (a - (buf + k * chunkBytes)) + k * chunkBytes" by simp
    have "a - (buf + k * chunkBytes) < chunkBytes" using 2 assms by linarith
    then have "(a - buf) mod chunkBytes = a - (buf + k * chunkBytes)"
      by (simp add: e)
    then show ?thesis using 2 by (simp add: filled_def cuMemcpyHtoD_def)
  next
    case 3
    then show ?thesis by (simp add: filled_def cuMemcpyHtoD_def)
  qed
qed

text \<open>
  The chunk loop of \<^verbatim>\<open>memsetPattern\<close> ends only when the chunk count fits the counter:
  for a count of \<open>2^32\<close> or more the comparison \<^verbatim>\<open>n < _2MBchunkCount\<close> holds for every
  value of the \<^verbatim>\<open>unsigned int\<close> counter.
\<close>

lemma memsetPattern_loop_ends:
  "memsetPattern_loop cnt pat n buf mem = Some y \<Longrightarrow> unat cnt < 2 ^ 32"
proof (erule memsetPattern_loop.raw_induct[rotated])
  fix f :: "u64 \<Rightarrow> u8 list \<Rightarrow> u32 \<Rightarrow> addr \<Rightarrow> memory \<Rightarrow> (addr \<times> memory) option"
    and cnt pat n buf mem y
  assume ih: "\<And>cnt pat n buf mem y. f cnt pat n buf mem = Some y \<Longrightarrow> unat cnt < 2 ^ 32"
    and body: "(if ucast n < cnt
                then f cnt pat (n + 1) (buf + chunkBytes) (cuMemcpyHtoD mem buf pat chunkBytes)
                else Some (buf, mem)) = Some y"
  show "unat cnt < 2 ^ 32"
  proof (cases "ucast n < cnt")
    case True
    then show ?thesis using body ih by simp
  next
    case False
    then have "unat cnt \<le> unat n" by (simp add: counter_less_iff)
    then show ?thesis using unat_u32_bound[of n] by linarith
  qed
qed

text \<open>
  \<^verbatim>\<open>memsetPattern\<close> returns for every size below \<open>2^53\<close> (a chunk count that fits the
  counter) and leaves the pattern, repeated every 2 MiB, in the \<open>sz\<close> bytes of the buffer.
\<close>

lemma remaining_unat_nf:
  "unat ((sz::u64) - 2097152 * (sz div 2097152)) = unat sz mod chunkBytes"
  using remaining_unat[of sz] by (simp add: mult.commute)

lemma remaining_zero_nf:
  "((sz::u64) = 2097152 * (sz div 2097152)) = (unat sz mod chunkBytes = 0)"
proof -
  have "(sz - 2097152 * (sz div 2097152) = 0) = (unat (sz - 2097152 * (sz div 2097152)) = 0)"
    by (simp only: unat_eq_0)
  then show ?thesis by (simp add: remaining_unat_nf)
qed

lemma memsetPattern_unfold:
  "memsetPattern mem buffer sz seed =
     (case memsetPattern_loop (sz div 2097152) (bytes_of (xorshift2MBPattern seed)) 0 buffer mem of
        None \<Rightarrow> None
      | Some (buf, mem') \<Rightarrow>
          if unat sz mod chunkBytes \<noteq> 0
          then Some (cuMemcpyHtoD mem' buf (bytes_of (xorshift2MBPattern seed))
                       (unat sz mod chunkBytes))
          else Some mem')"
  by (simp add: memsetPattern_def Let_def remaining_unat_nf remaining_zero_nf
        cong: option.case_cong prod.case_cong if_cong)

lemma memcmpPattern_unfold:
  "memcmpPattern mem buffer sz seed =
     (case memcmpPattern_loop (sz div 2097152) (xorshift2MBPattern seed) buffer mem 0 buffer of
        None \<Rightarrow> None
      | Some (Inl v) \<Rightarrow> Some v
      | Some (Inr (n, buf)) \<Rightarrow>
          if unat sz mod chunkBytes \<noteq> 0 then
            (let devicePattern = cuMemcpyDtoH mem buf (unat sz mod chunkBytes) in
             if memcmp_differs (bytes_of (xorshift2MBPattern seed)) devicePattern
                  (unat sz mod chunkBytes)
             then (case first_mismatch devicePattern (xorshift2MBPattern seed)
                          (unat sz mod chunkBytes div 4) of
                     Some x \<Rightarrow>
                       Some (Aborted (buffer + unat (n * 2097152) + x * 4) ((buf - buffer) + x * 4))
                   | None \<Rightarrow> Some Returned)
             else Some Returned)
          else Some Returned)"
  by (simp add: memcmpPattern_def Let_def remaining_unat_nf remaining_zero_nf
        cong: option.case_cong sum.case_cong prod.case_cong if_cong)

lemma memsetPattern_filled:
  assumes "sz < 2 ^ 53"
  shows "memsetPattern mem buffer sz seed
         = Some (filled mem buffer (unat sz) (bytes_of (xorshift2MBPattern seed)))"
proof -
  let ?pat = "bytes_of (xorshift2MBPattern seed)"
  let ?cnt = "sz div 2097152"
  let ?K = "unat sz div chunkBytes"
  let ?r = "unat sz mod chunkBytes"
  have K: "unat ?cnt = ?K" by (rule chunkCount_unat)
  have "unat (0::u32) + ?K = unat ?cnt" by (simp add: K)
  then have loop: "memsetPattern_loop ?cnt ?pat 0 buffer mem
                   = Some (buffer + ?K * chunkBytes, filled mem buffer (?K * chunkBytes) ?pat)"
    using chunkCount_bound[OF assms] by (rule memsetPattern_loop_closed)
  have sz: "?K * chunkBytes + ?r = unat sz" by simp
  have rle: "?r \<le> chunkBytes" by (simp add: chunkBytes_def)
  show ?thesis
  proof (cases "?r = 0")
    case True
    then have "?K * chunkBytes = unat sz" using sz by simp
    then show ?thesis using True loop by (simp add: memsetPattern_unfold)
  next
    case False
    have "cuMemcpyHtoD (filled mem buffer (?K * chunkBytes) ?pat) (buffer + ?K * chunkBytes) ?pat ?r
          = filled mem buffer (unat sz) ?pat"
      using filled_tail[OF rle, of mem buffer ?K ?pat] by (simp only: sz)
    then show ?thesis
      using False loop by (simp add: memsetPattern_unfold)
  qed
qed

text \<open>For a size of \<open>2^53\<close> bytes (8 PiB) or more it does not return.\<close>

lemma memsetPattern_returns_iff:
  "(\<exists>mem'. memsetPattern mem buffer sz seed = Some mem') = (sz < 2 ^ 53)"
proof
  assume "\<exists>mem'. memsetPattern mem buffer sz seed = Some mem'"
  then obtain y where "memsetPattern_loop (sz div 2097152) (bytes_of (xorshift2MBPattern seed)) 0
                         buffer mem = Some y"
    by (auto simp add: memsetPattern_unfold split: option.splits)
  then have "unat (sz div 2097152) < 2 ^ 32" by (rule memsetPattern_loop_ends)
  then have "unat sz div 2097152 < 2 ^ 32" by (simp add: unat_div)
  then have "unat sz < 2 ^ 32 * 2097152" by (simp only: div_less_iff_less_mult zero_less_numeral)
  then show "sz < 2 ^ 53" by (simp add: word_less_nat_alt)
next
  assume "sz < 2 ^ 53"
  then show "\<exists>mem'. memsetPattern mem buffer sz seed = Some mem'"
    by (simp add: memsetPattern_filled)
qed

lemma length_pattern_bytes: "length (bytes_of (xorshift2MBPattern seed)) = chunkBytes"
  by (simp add: length_bytes_of length_xorshift2MBPattern chunkBytes_def)

text \<open>Reading back \<open>r\<close> bytes of chunk \<open>j\<close> of a store that holds the pattern there.\<close>

lemma read_chunk:
  assumes "\<forall>i < j * chunkBytes + r. mem (buffer + i) = pat ! (i mod chunkBytes)"
    and "r \<le> chunkBytes" and "length pat = chunkBytes"
  shows "cuMemcpyDtoH mem (buffer + j * chunkBytes) r = take r pat"
proof (rule cuMemcpyDtoH_eqI)
  show "r \<le> length pat" using assms by simp
  show "\<forall>i < r. mem (buffer + j * chunkBytes + i) = pat ! i"
  proof (intro allI impI)
    fix i
    assume i: "i < r"
    then have "mem (buffer + (j * chunkBytes + i)) = pat ! ((j * chunkBytes + i) mod chunkBytes)"
      using assms(1) by simp
    moreover have "(j * chunkBytes + i) mod chunkBytes = i" using i assms(2) by simp
    ultimately show "mem (buffer + j * chunkBytes + i) = pat ! i" by (simp add: add.assoc)
  qed
qed

text \<open>The chunk loop of \<^verbatim>\<open>memcmpPattern\<close> over chunks that all compare equal.\<close>

lemma memcmpPattern_loop_pass:
  "unat n + k = unat cnt \<Longrightarrow> unat cnt < 2 ^ 32 \<Longrightarrow>
   \<forall>j < k. \<not> memcmp_differs (bytes_of pattern)
                 (cuMemcpyDtoH mem (buf + j * chunkBytes) chunkBytes) chunkBytes \<Longrightarrow>
     memcmpPattern_loop cnt pattern buffer mem n buf
       = Some (Inr (n + of_nat k, buf + k * chunkBytes))"
proof (induction k arbitrary: n buf)
  case 0
  then have "\<not> ucast n < cnt" by (simp add: counter_less_iff)
  then show ?case
    by (subst memcmpPattern_loop.simps) simp
next
  case (Suc k)
  then have lt: "unat n < unat cnt" by simp
  then have c: "ucast n < cnt" by (simp add: counter_less_iff)
  have n1: "unat (n + 1) + k = unat cnt"
    using counter_Suc[OF lt Suc.prems(2)] Suc.prems(1) by simp
  have here: "\<not> memcmp_differs (bytes_of pattern) (cuMemcpyDtoH mem buf chunkBytes) chunkBytes"
    using Suc.prems(3)[rule_format, of 0] by simp
  have later: "\<forall>j < k. \<not> memcmp_differs (bytes_of pattern)
                 (cuMemcpyDtoH mem (buf + chunkBytes + j * chunkBytes) chunkBytes) chunkBytes"
  proof (intro allI impI)
    fix j
    assume "j < k"
    then show "\<not> memcmp_differs (bytes_of pattern)
                 (cuMemcpyDtoH mem (buf + chunkBytes + j * chunkBytes) chunkBytes) chunkBytes"
      using Suc.prems(3)[rule_format, of "Suc j"] by (simp add: add.assoc)
  qed
  have "memcmpPattern_loop cnt pattern buffer mem (n + 1) (buf + chunkBytes)
        = Some (Inr (n + 1 + of_nat k, buf + chunkBytes + k * chunkBytes))"
    using n1 Suc.prems(2) later by (rule Suc.IH)
  then show ?case
    using c here by (subst memcmpPattern_loop.simps) (simp add: add.assoc)
qed


text \<open>
  The inner loop finds no mismatch in a buffer whose whole words are those of the
  pattern: bytes after the last whole word are not read by it.
\<close>

lemma no_mismatch_in_whole_words:
  assumes "\<forall>i < 4 * c. mem (base + i) = bytes_of ws ! i" and "c \<le> length ws" and "4 * c \<le> r"
  shows "first_mismatch (cuMemcpyDtoH mem base r) ws c = None"
proof -
  have "word_at (cuMemcpyDtoH mem base r) x = ws ! x" if x: "x < c" for x
  proof -
    have b: "cuMemcpyDtoH mem base r ! (4 * x + j) = bytes_of ws ! (4 * x + j)" if "j < 4" for j
    proof -
      have "4 * x + j < 4 * c" using x that by simp
      then show ?thesis
        using assms(1) assms(3) by (simp add: cuMemcpyDtoH_nth)
    qed
    have "word_at (cuMemcpyDtoH mem base r) x = word_at (bytes_of ws) x"
      using b[of 0] b[of 1] b[of 2] b[of 3] by (simp add: word_at_def)
    also have "\<dots> = ws ! x" using x assms(2) by (simp add: word_at_bytes_of)
    finally show ?thesis .
  qed
  then show ?thesis by (simp add: first_mismatch_def find_None_iff)
qed

lemma whole_words_split:
  fixes n :: nat
  shows "n div chunkBytes * chunkBytes + 4 * (n mod chunkBytes div 4) = 4 * (n div 4)"
proof -
  define q where "q = n div chunkBytes"
  define r where "r = n mod chunkBytes"
  have c: "q * chunkBytes = 4 * (q * 524288)" by (simp add: chunkBytes_def)
  have "n = 4 * (q * 524288) + r" unfolding q_def r_def c[unfolded q_def, symmetric] by simp
  then have "n div 4 = q * 524288 + r div 4" by simp
  then have "4 * (n div 4) = q * chunkBytes + 4 * (r div 4)" by (simp add: c)
  then show ?thesis by (simp add: q_def r_def)
qed

text \<open>
  \<^verbatim>\<open>memcmpPattern\<close> returns whenever the whole words of the checked region hold the
  pattern, whatever the bytes after the last whole word hold.
\<close>

lemma memcmpPattern_returns:
  assumes "sz < 2 ^ 53"
    and "\<forall>i < 4 * (unat sz div 4).
           mem (buffer + i) = bytes_of (xorshift2MBPattern seed) ! (i mod chunkBytes)"
  shows "memcmpPattern mem buffer sz seed = Some Returned"
proof -
  let ?ws = "xorshift2MBPattern seed"
  let ?pat = "bytes_of ?ws"
  let ?cnt = "sz div 2097152"
  let ?K = "unat sz div chunkBytes"
  let ?r = "unat sz mod chunkBytes"
  have K: "unat ?cnt = ?K" by (rule chunkCount_unat)
  have len: "length ?pat = chunkBytes" by (rule length_pattern_bytes)
  have split: "?K * chunkBytes + 4 * (?r div 4) = 4 * (unat sz div 4)" by (rule whole_words_split)
  have chunks: "\<forall>j < ?K. \<not> memcmp_differs ?pat
                   (cuMemcpyDtoH mem (buffer + j * chunkBytes) chunkBytes) chunkBytes"
  proof (intro allI impI)
    fix j
    assume j: "j < ?K"
    then have "Suc j * chunkBytes \<le> ?K * chunkBytes" by (simp only: Suc_le_eq mult_le_mono1)
    then have "j * chunkBytes + chunkBytes \<le> 4 * (unat sz div 4)" using split by simp
    then have "\<forall>i < j * chunkBytes + chunkBytes. mem (buffer + i) = ?pat ! (i mod chunkBytes)"
      using assms(2) by simp
    then have "cuMemcpyDtoH mem (buffer + j * chunkBytes) chunkBytes = take chunkBytes ?pat"
      using len by (intro read_chunk) simp_all
    then show "\<not> memcmp_differs ?pat
                   (cuMemcpyDtoH mem (buffer + j * chunkBytes) chunkBytes) chunkBytes"
      by (simp add: memcmp_differs_def)
  qed
  have "unat (0::u32) + ?K = unat ?cnt" by (simp add: K)
  then have loop: "memcmpPattern_loop ?cnt ?ws buffer mem 0 buffer
                   = Some (Inr (0 + of_nat ?K, buffer + ?K * chunkBytes))"
    using chunkCount_bound[OF assms(1)] chunks by (rule memcmpPattern_loop_pass)
  have tail: "first_mismatch (cuMemcpyDtoH mem (buffer + ?K * chunkBytes) ?r) ?ws (?r div 4) = None"
  proof (rule no_mismatch_in_whole_words)
    show "\<forall>i < 4 * (?r div 4). mem (buffer + ?K * chunkBytes + i) = ?pat ! i"
    proof (intro allI impI)
      fix i
      assume i: "i < 4 * (?r div 4)"
      then have "?K * chunkBytes + i < 4 * (unat sz div 4)" using split by simp
      then have "mem (buffer + (?K * chunkBytes + i)) = ?pat ! ((?K * chunkBytes + i) mod chunkBytes)"
        using assms(2) by simp
      moreover have "i < chunkBytes" using i by (simp add: chunkBytes_def)
      ultimately show "mem (buffer + ?K * chunkBytes + i) = ?pat ! i" by (simp add: add.assoc)
    qed
    show "?r div 4 \<le> length ?ws" by (simp add: length_xorshift2MBPattern chunkBytes_def)
    show "4 * (?r div 4) \<le> ?r" by simp
  qed
  show ?thesis
    by (simp add: memcmpPattern_unfold loop tail Let_def)
qed

text \<open>
  Claim C3. For every size below \<open>2^53\<close> bytes (the sizes whose 2 MiB chunks the
  \<^verbatim>\<open>unsigned int\<close> counter of the two loops can count) and every seed,
  \<^verbatim>\<open>memsetPattern\<close> returns and \<^verbatim>\<open>memcmpPattern\<close> with the same size and seed on the
  store it leaves returns without aborting.
\<close>

theorem fill_then_check_returns:
  assumes "sz < 2 ^ 53"
  shows "\<exists>mem'. memsetPattern mem buffer sz seed = Some mem'
              \<and> memcmpPattern mem' buffer sz seed = Some Returned"
proof -
  let ?pat = "bytes_of (xorshift2MBPattern seed)"
  let ?mem' = "filled mem buffer (unat sz) ?pat"
  have "\<forall>i < 4 * (unat sz div 4). ?mem' (buffer + i) = ?pat ! (i mod chunkBytes)"
  proof (intro allI impI)
    fix i
    assume "i < 4 * (unat sz div 4)"
    then have "i < unat sz" by simp
    then show "?mem' (buffer + i) = ?pat ! (i mod chunkBytes)" by (simp add: filled_def)
  qed
  then have "memcmpPattern ?mem' buffer sz seed = Some Returned"
    using assms by (intro memcmpPattern_returns)
  then show ?thesis using memsetPattern_filled[OF assms] by blast
qed

theorem fill_then_check_returns_witness:
  "(5 * 1024 * 1024 + 7 :: u64) < 2 ^ 53
   \<and> (\<exists>mem'. memsetPattern (\<lambda>a. 0) 4096 (5 * 1024 * 1024 + 7) 0xBAADF00D = Some mem'
              \<and> memcmpPattern mem' 4096 (5 * 1024 * 1024 + 7) 0xBAADF00D = Some Returned)"
proof -
  have h: "(5 * 1024 * 1024 + 7 :: u64) < 2 ^ 53" by simp
  show ?thesis
    using h fill_then_check_returns[OF h, of "\<lambda>a. 0" 4096 "0xBAADF00D"] by simp
qed

section \<open>Telling two patterns apart\<close>

lemma first_mismatch_at_0:
  assumes "0 < c" and "word_at devicePattern 0 \<noteq> ws ! 0"
  shows "first_mismatch devicePattern ws c = Some 0"
  using assms by (simp add: first_mismatch_def upt_conv_Cons)

lemma word_at_take: "4 * x + 4 \<le> n \<Longrightarrow> word_at (take n bs) x = word_at bs x"
  by (simp add: word_at_def)

lemma first_words_differ:
  "S1 \<noteq> S2 \<Longrightarrow> xorshift2MBPattern S1 ! 0 \<noteq> xorshift2MBPattern S2 ! 0"
  using xorshift_inj[of S1 S2] by (auto simp add: xorshift2MBPattern_first)

text \<open>
  A buffer that starts with the bytes of the pattern of seed \<open>S1\<close> differs, in its first
  word, from the pattern of any other seed.
\<close>

lemma prefix_differs:
  assumes "S1 \<noteq> S2" and "4 \<le> r" and "r \<le> chunkBytes"
  shows "memcmp_differs (bytes_of (xorshift2MBPattern S2))
           (take r (bytes_of (xorshift2MBPattern S1))) r"
    and "first_mismatch (take r (bytes_of (xorshift2MBPattern S1))) (xorshift2MBPattern S2) (r div 4)
         = Some 0"
proof -
  let ?ws1 = "xorshift2MBPattern S1"
  let ?ws2 = "xorshift2MBPattern S2"
  have l: "0 < length ?ws1" "0 < length ?ws2" by (simp_all add: length_xorshift2MBPattern)
  have w1: "word_at (take r (bytes_of ?ws1)) 0 = ?ws1 ! 0"
    using assms(2) l by (simp add: word_at_take word_at_bytes_of)
  have w2: "word_at (take r (bytes_of ?ws2)) 0 = ?ws2 ! 0"
    using assms(2) l by (simp add: word_at_take word_at_bytes_of)
  have d: "?ws1 ! 0 \<noteq> ?ws2 ! 0" using assms(1) by (rule first_words_differ)
  show "memcmp_differs (bytes_of ?ws2) (take r (bytes_of ?ws1)) r"
  proof -
    have "take r (bytes_of ?ws2) \<noteq> take r (bytes_of ?ws1)"
    proof
      assume "take r (bytes_of ?ws2) = take r (bytes_of ?ws1)"
      then have "word_at (take r (bytes_of ?ws2)) 0 = word_at (take r (bytes_of ?ws1)) 0" by simp
      then show False using w1 w2 d by simp
    qed
    then show ?thesis by (simp add: memcmp_differs_def)
  qed
  have "0 < r div 4" using assms(2) by simp
  then show "first_mismatch (take r (bytes_of ?ws1)) ?ws2 (r div 4) = Some 0"
    using w1 d by (intro first_mismatch_at_0) simp_all
qed

text \<open>
  Claim C4. For two distinct seeds and every size of at least 4 bytes (below \<open>2^53\<close>,
  see claim C3), a buffer filled by \<^verbatim>\<open>memsetPattern\<close> with the first seed makes
  \<^verbatim>\<open>memcmpPattern\<close> with the second seed abort at the first word: the address it
  prints is the start of the buffer and the offset it prints is 0.
\<close>

theorem distinct_seeds_abort_at_offset_0:
  assumes "S1 \<noteq> S2" and "4 \<le> sz" and "sz < 2 ^ 53"
  shows "\<exists>mem'. memsetPattern mem buffer sz S1 = Some mem'
              \<and> memcmpPattern mem' buffer sz S2 = Some (Aborted buffer 0)"
proof -
  let ?pat1 = "bytes_of (xorshift2MBPattern S1)"
  let ?ws2 = "xorshift2MBPattern S2"
  let ?mem' = "filled mem buffer (unat sz) ?pat1"
  let ?cnt = "sz div 2097152"
  let ?K = "unat sz div chunkBytes"
  let ?r = "unat sz mod chunkBytes"
  have K: "unat ?cnt = ?K" by (rule chunkCount_unat)
  have len: "length ?pat1 = chunkBytes" by (rule length_pattern_bytes)
  have four: "4 \<le> unat sz" using assms(2) by (simp add: word_le_nat_alt)
  have start: "cuMemcpyDtoH ?mem' buffer r = take r ?pat1" if "r \<le> chunkBytes" "r \<le> unat sz" for r
  proof -
    have "\<forall>i < 0 * chunkBytes + r. ?mem' (buffer + i) = ?pat1 ! (i mod chunkBytes)"
      using that by (simp add: filled_def)
    then have "cuMemcpyDtoH ?mem' (buffer + 0 * chunkBytes) r = take r ?pat1"
      using that(1) len by (rule read_chunk)
    then show ?thesis by simp
  qed
  have "memcmpPattern ?mem' buffer sz S2 = Some (Aborted buffer 0)"
  proof (cases "?K = 0")
    case True
    then have "\<not> 0 < ?cnt" by (simp add: word_less_nat_alt K)
    then have loop: "memcmpPattern_loop ?cnt ?ws2 buffer ?mem' 0 buffer = Some (Inr (0, buffer))"
      by (subst memcmpPattern_loop.simps) simp
    have r: "?r = unat sz" using True by (simp add: chunkBytes_def div_eq_0_iff)
    have r4: "4 \<le> ?r" "?r \<le> chunkBytes" using four r by (simp_all add: chunkBytes_def)
    have dev: "cuMemcpyDtoH ?mem' buffer ?r = take ?r ?pat1"
      using r4(2) r by (intro start) simp_all
    show ?thesis
      using r4(1) prefix_differs[OF assms(1) r4]
      by (simp add: memcmpPattern_unfold loop dev Let_def)
  next
    case False
    then have "0 < ?cnt" by (simp add: word_less_nat_alt K)
    moreover have c4: "4 \<le> chunkBytes" by (simp add: chunkBytes_def)
    have "chunkBytes \<le> unat sz" using False by (simp add: chunkBytes_def div_eq_0_iff not_less)
    then have "cuMemcpyDtoH ?mem' buffer chunkBytes = take chunkBytes ?pat1"
      by (intro start) simp_all
    ultimately have "memcmpPattern_loop ?cnt ?ws2 buffer ?mem' 0 buffer
                     = Some (Inl (Aborted buffer 0))"
      using prefix_differs[OF assms(1) c4 order_refl]
      by (subst memcmpPattern_loop.simps) simp
    then show ?thesis by (simp add: memcmpPattern_unfold)
  qed
  then show ?thesis using memsetPattern_filled[OF assms(3)] by blast
qed

theorem distinct_seeds_abort_at_offset_0_witness:
  "(0xCAFEBABE :: u32) \<noteq> 0xBAADF00D \<and> (4 :: u64) \<le> 64 * 1024 * 1024
   \<and> (64 * 1024 * 1024 :: u64) < 2 ^ 53
   \<and> (\<exists>mem'. memsetPattern (\<lambda>a. 0) 4096 (64 * 1024 * 1024) 0xCAFEBABE = Some mem'
              \<and> memcmpPattern mem' 4096 (64 * 1024 * 1024) 0xBAADF00D = Some (Aborted 4096 0))"
proof -
  have h1: "(0xCAFEBABE :: u32) \<noteq> 0xBAADF00D" by simp
  have h2: "(4 :: u64) \<le> 64 * 1024 * 1024" by simp
  have h3: "(64 * 1024 * 1024 :: u64) < 2 ^ 53" by simp
  show ?thesis
    using h1 h2 h3 distinct_seeds_abort_at_offset_0[OF h1 h2 h3, of "\<lambda>a. 0" 4096] by simp
qed

section \<open>What the check reads\<close>

text \<open>
  In a full chunk every byte belongs to a word, so a chunk that \<^verbatim>\<open>memcmp\<close> finds
  different has a word at which the inner loop aborts.
\<close>

lemma chunk_mismatch_found:
  assumes "length ws = 524288" and "length devicePattern = chunkBytes"
    and "memcmp_differs (bytes_of ws) devicePattern chunkBytes"
  shows "\<exists>x. first_mismatch devicePattern ws (chunkBytes div 4) = Some x"
proof (cases "first_mismatch devicePattern ws (chunkBytes div 4)")
  case None
  then have "\<forall>x < length ws. word_at devicePattern x = ws ! x"
    using assms(1) by (simp add: first_mismatch_def find_None_iff chunkBytes_def)
  moreover have "length devicePattern = 4 * length ws"
    using assms(1,2) by (simp add: chunkBytes_def)
  ultimately have "devicePattern = bytes_of ws" by (intro bytes_of_eqI)
  then show ?thesis using assms(3) by (simp add: memcmp_differs_def)
next
  case (Some x)
  then show ?thesis by blast
qed

text \<open>
  The chunk loop of \<^verbatim>\<open>memcmpPattern\<close> ends when the chunk count fits the counter: with
  an abort, or after all chunks, each of which then holds the bytes of the one staged
  pattern.
\<close>

lemma memcmpPattern_loop_total:
  "unat n + k = unat cnt \<Longrightarrow> unat cnt < 2 ^ 32 \<Longrightarrow> length ws = 524288 \<Longrightarrow>
     (\<exists>a off. memcmpPattern_loop cnt ws buffer mem n buf = Some (Inl (Aborted a off)))
     \<or> (memcmpPattern_loop cnt ws buffer mem n buf = Some (Inr (n + of_nat k, buf + k * chunkBytes))
        \<and> (\<forall>j < k. cuMemcpyDtoH mem (buf + j * chunkBytes) chunkBytes = bytes_of ws))"
proof (induction k arbitrary: n buf)
  case 0
  then have "\<not> ucast n < cnt" by (simp add: counter_less_iff)
  then show ?case
    by (subst memcmpPattern_loop.simps) simp
next
  case (Suc k)
  let ?dev = "cuMemcpyDtoH mem buf chunkBytes"
  from Suc.prems have lt: "unat n < unat cnt" by simp
  then have c: "ucast n < cnt" by (simp add: counter_less_iff)
  have n1: "unat (n + 1) + k = unat cnt"
    using counter_Suc[OF lt Suc.prems(2)] Suc.prems(1) by simp
  show ?case
  proof (cases "memcmp_differs (bytes_of ws) ?dev chunkBytes")
    case True
    then obtain x where "first_mismatch ?dev ws (chunkBytes div 4) = Some x"
      using chunk_mismatch_found[OF Suc.prems(3) length_cuMemcpyDtoH] by blast
    then have "\<exists>a off. memcmpPattern_loop cnt ws buffer mem n buf = Some (Inl (Aborted a off))"
      using c True by (subst memcmpPattern_loop.simps) simp
    then show ?thesis by (rule disjI1)
  next
    case False
    have "length (bytes_of ws) = chunkBytes"
      using Suc.prems(3) by (simp add: length_bytes_of chunkBytes_def)
    then have here: "?dev = bytes_of ws"
      using False by (simp add: memcmp_differs_def length_cuMemcpyDtoH)
    have step: "memcmpPattern_loop cnt ws buffer mem n buf
                = memcmpPattern_loop cnt ws buffer mem (n + 1) (buf + chunkBytes)"
      using c False by (subst memcmpPattern_loop.simps) simp
    from Suc.IH[OF n1 Suc.prems(2) Suc.prems(3), of "buf + chunkBytes"]
    show ?thesis
    proof
      assume "\<exists>a off. memcmpPattern_loop cnt ws buffer mem (n + 1) (buf + chunkBytes)
                        = Some (Inl (Aborted a off))"
      then show ?thesis by (simp add: step)
    next
      assume r: "memcmpPattern_loop cnt ws buffer mem (n + 1) (buf + chunkBytes)
                   = Some (Inr (n + 1 + of_nat k, buf + chunkBytes + k * chunkBytes))
                 \<and> (\<forall>j < k. cuMemcpyDtoH mem (buf + chunkBytes + j * chunkBytes) chunkBytes
                               = bytes_of ws)"
      have "\<forall>j < Suc k. cuMemcpyDtoH mem (buf + j * chunkBytes) chunkBytes = bytes_of ws"
      proof (intro allI impI)
        fix j
        assume j: "j < Suc k"
        show "cuMemcpyDtoH mem (buf + j * chunkBytes) chunkBytes = bytes_of ws"
        proof (cases j)
          case 0
          then show ?thesis using here by simp
        next
          case (Suc i)
          then show ?thesis using r j by (simp add: add.assoc)
        qed
      qed
      then show ?thesis using r by (simp add: step add.assoc)
    qed
  qed
qed


lemma bytes_from_word:
  assumes "x < length ws" and "word_at bs x = ws ! x" and "j < 4"
  shows "bs ! (4 * x + j) = bytes_of ws ! (4 * x + j)"
proof -
  have wb: "word_bytes (ws ! x) = [bs ! (4 * x), bs ! (4 * x + 1), bs ! (4 * x + 2), bs ! (4 * x + 3)]"
    using assms(2) word_bytes_word_at[of bs x] by simp
  from assms(3) consider (0) "j = 0" | (1) "j = 1" | (2) "j = 2" | (3) "j = 3" by linarith
  then have "word_bytes (ws ! x) ! j = bs ! (4 * x + j)"
  proof cases
    case 0
    then show ?thesis by (simp add: wb)
  next
    case 1
    then show ?thesis by (simp add: wb)
  next
    case 2
    then show ?thesis by (simp add: wb)
  next
    case 3
    then show ?thesis by (simp add: wb)
  qed
  then show ?thesis by (simp add: bytes_of_nth[OF assms(1) assms(3)])
qed

lemma whole_words_checked:
  assumes "first_mismatch devicePattern ws c = None" and "c \<le> length ws"
  shows "\<forall>i < 4 * c. devicePattern ! i = bytes_of ws ! i"
proof (intro allI impI)
  fix i
  assume i: "i < 4 * c"
  define x where "x = i div 4"
  define j where "j = i mod 4"
  have ij: "i = 4 * x + j" and j: "j < 4" by (simp_all add: x_def j_def)
  have x: "x < c" using i by (simp add: x_def)
  then have "word_at devicePattern x = ws ! x"
    using assms(1) by (simp add: first_mismatch_def find_None_iff)
  then show "devicePattern ! i = bytes_of ws ! i"
    unfolding ij using x assms(2) j by (intro bytes_from_word) simp_all
qed

text \<open>
  For every size below \<open>2^53\<close> \<^verbatim>\<open>memcmpPattern\<close> ends, and when it returns, every whole
  word of the checked region holds the pattern.
\<close>

lemma memcmpPattern_total:
  assumes "sz < 2 ^ 53"
  shows "\<exists>v. memcmpPattern mem buffer sz seed = Some v"
proof -
  let ?cnt = "sz div 2097152"
  have "unat (0::u32) + unat sz div chunkBytes = unat ?cnt" by (simp add: chunkCount_unat)
  from memcmpPattern_loop_total[OF this chunkCount_bound[OF assms] length_xorshift2MBPattern,
         of seed buffer mem buffer]
  show ?thesis
    by (auto simp add: memcmpPattern_unfold Let_def split: option.splits)
qed

lemma memcmpPattern_Returned_checked:
  assumes "sz < 2 ^ 53" and "memcmpPattern mem buffer sz seed = Some Returned"
  shows "\<forall>i < 4 * (unat sz div 4).
           mem (buffer + i) = bytes_of (xorshift2MBPattern seed) ! (i mod chunkBytes)"
proof -
  let ?ws = "xorshift2MBPattern seed"
  let ?pat = "bytes_of ?ws"
  let ?cnt = "sz div 2097152"
  let ?K = "unat sz div chunkBytes"
  let ?r = "unat sz mod chunkBytes"
  let ?dev = "cuMemcpyDtoH mem (buffer + ?K * chunkBytes) ?r"
  have len: "length ?pat = chunkBytes" by (rule length_pattern_bytes)
  have split: "?K * chunkBytes + 4 * (?r div 4) = 4 * (unat sz div 4)" by (rule whole_words_split)
  have "unat (0::u32) + ?K = unat ?cnt" by (simp add: chunkCount_unat)
  from memcmpPattern_loop_total[OF this chunkCount_bound[OF assms(1)] length_xorshift2MBPattern,
         of seed buffer mem buffer]
  have loop: "memcmpPattern_loop ?cnt ?ws buffer mem 0 buffer
                = Some (Inr (0 + of_nat ?K, buffer + ?K * chunkBytes))"
    and chunks: "\<forall>j < ?K. cuMemcpyDtoH mem (buffer + j * chunkBytes) chunkBytes = ?pat"
    using assms(2) by (auto simp add: memcmpPattern_unfold)
  have tail: "\<forall>t < 4 * (?r div 4). ?dev ! t = ?pat ! t"
  proof (cases "memcmp_differs ?pat ?dev ?r")
    case True
    then have "first_mismatch ?dev ?ws (?r div 4) = None"
      using assms(2) loop
      by (cases "?r = 0")
         (auto simp add: memcmpPattern_unfold Let_def first_mismatch_def split: option.splits)
    moreover have "?r div 4 \<le> length ?ws"
      by (simp add: length_xorshift2MBPattern chunkBytes_def)
    ultimately show ?thesis by (rule whole_words_checked)
  next
    case False
    then have "take ?r ?pat = ?dev" by (simp add: memcmp_differs_def length_cuMemcpyDtoH)
    then have "\<forall>t < ?r. ?dev ! t = ?pat ! t" by (metis nth_take)
    moreover have "4 * (?r div 4) \<le> ?r" by simp
    ultimately show ?thesis by simp
  qed
  show ?thesis
  proof (intro allI impI)
    fix i
    assume i: "i < 4 * (unat sz div 4)"
    show "mem (buffer + i) = ?pat ! (i mod chunkBytes)"
    proof (cases "i < ?K * chunkBytes")
      case True
      define j where "j = i div chunkBytes"
      define t where "t = i mod chunkBytes"
      have c0: "0 < chunkBytes" by (simp add: chunkBytes_def)
      have ij: "i = j * chunkBytes + t" and t: "t < chunkBytes"
        using c0 by (simp_all add: j_def t_def)
      have j: "j < ?K" using True c0 by (simp add: j_def less_mult_imp_div_less)
      have "cuMemcpyDtoH mem (buffer + j * chunkBytes) chunkBytes ! t = ?pat ! t"
        using chunks j by simp
      then have "mem (buffer + j * chunkBytes + t) = ?pat ! t"
        using t by (simp add: cuMemcpyDtoH_nth)
      then show ?thesis by (simp add: ij add.assoc t)
    next
      case False
      define t where "t = i - ?K * chunkBytes"
      have it: "i = ?K * chunkBytes + t" using False by (simp add: t_def)
      have t: "t < 4 * (?r div 4)" using i split it by linarith
      then have tr: "t < ?r" by simp
      then have tc: "t < chunkBytes" by (simp add: chunkBytes_def)
      have "?dev ! t = ?pat ! t" using tail t by simp
      then have "mem (buffer + ?K * chunkBytes + t) = ?pat ! t"
        using tr by (simp add: cuMemcpyDtoH_nth)
      then show ?thesis by (simp add: it add.assoc tc)
    qed
  qed
qed


lemma memcmpPattern_aborts_on_mismatch:
  assumes "sz < 2 ^ 53" and "i < 4 * (unat sz div 4)"
    and "mem (buffer + i) \<noteq> bytes_of (xorshift2MBPattern seed) ! (i mod chunkBytes)"
  shows "\<exists>a off. memcmpPattern mem buffer sz seed = Some (Aborted a off)"
proof -
  obtain v where v: "memcmpPattern mem buffer sz seed = Some v"
    using memcmpPattern_total[OF assms(1)] by blast
  have "v \<noteq> Returned"
    using memcmpPattern_Returned_checked[OF assms(1), of mem buffer seed] v assms(2,3) by blast
  then show ?thesis using v by (cases v) simp_all
qed

lemma filled_chunks:
  assumes "j < n div chunkBytes" and "length pat = chunkBytes"
  shows "cuMemcpyDtoH (filled mem buffer n pat) (buffer + j * chunkBytes) chunkBytes = pat"
proof -
  have "Suc j * chunkBytes \<le> n div chunkBytes * chunkBytes"
    using assms(1) by (simp only: Suc_le_eq mult_le_mono1)
  also have "\<dots> \<le> n" by simp
  finally have "j * chunkBytes + chunkBytes \<le> n" by simp
  then have "\<forall>i < j * chunkBytes + chunkBytes.
               filled mem buffer n pat (buffer + i) = pat ! (i mod chunkBytes)"
    by (simp add: filled_def)
  then have "cuMemcpyDtoH (filled mem buffer n pat) (buffer + j * chunkBytes) chunkBytes
             = take chunkBytes pat"
    using assms(2) by (intro read_chunk) simp_all
  then show ?thesis using assms(2) by simp
qed

text \<open>
  Claim C10. For every seed and every size (below \<open>2^53\<close>, see claim C3), the store
  \<^verbatim>\<open>memsetPattern\<close> leaves is periodic with period 2 MiB over the full chunks: a byte
  and the byte 2 MiB after it are equal when both lie in full chunks, and every full
  chunk holds the bytes of the one staged pattern. \<^verbatim>\<open>memcmpPattern\<close> returns only for a
  store whose every full chunk holds the bytes of that same pattern.
\<close>

theorem fill_is_periodic:
  assumes "sz < 2 ^ 53"
  shows "(\<exists>mem'. memsetPattern mem buffer sz seed = Some mem'
            \<and> (\<forall>off. off + chunkBytes < unat sz div chunkBytes * chunkBytes
                   \<longrightarrow> mem' (buffer + off) = mem' (buffer + off + chunkBytes))
            \<and> (\<forall>j < unat sz div chunkBytes.
                   cuMemcpyDtoH mem' (buffer + j * chunkBytes) chunkBytes
                   = bytes_of (xorshift2MBPattern seed)))
       \<and> (\<forall>m. memcmpPattern m buffer sz seed = Some Returned
             \<longrightarrow> (\<forall>j < unat sz div chunkBytes.
                    cuMemcpyDtoH m (buffer + j * chunkBytes) chunkBytes
                    = bytes_of (xorshift2MBPattern seed)))"
proof (intro conjI allI impI)
  let ?pat = "bytes_of (xorshift2MBPattern seed)"
  let ?mem' = "filled mem buffer (unat sz) ?pat"
  have len: "length ?pat = chunkBytes" by (rule length_pattern_bytes)
  have per: "?mem' (buffer + off) = ?mem' (buffer + off + chunkBytes)"
    if "off + chunkBytes < unat sz div chunkBytes * chunkBytes" for off
  proof -
    have "unat sz div chunkBytes * chunkBytes \<le> unat sz" by simp
    then have "off + chunkBytes < unat sz" using that by linarith
    then show ?thesis by (simp add: filled_def add.assoc)
  qed
  have "\<forall>j < unat sz div chunkBytes.
          cuMemcpyDtoH ?mem' (buffer + j * chunkBytes) chunkBytes = ?pat"
    using len by (simp add: filled_chunks)
  then show "\<exists>mem'. memsetPattern mem buffer sz seed = Some mem'
            \<and> (\<forall>off. off + chunkBytes < unat sz div chunkBytes * chunkBytes
                   \<longrightarrow> mem' (buffer + off) = mem' (buffer + off + chunkBytes))
            \<and> (\<forall>j < unat sz div chunkBytes.
                   cuMemcpyDtoH mem' (buffer + j * chunkBytes) chunkBytes = ?pat)"
    using memsetPattern_filled[OF assms, of mem buffer seed] per by blast
next
  fix m j
  let ?pat = "bytes_of (xorshift2MBPattern seed)"
  assume r: "memcmpPattern m buffer sz seed = Some Returned" and j: "j < unat sz div chunkBytes"
  have "Suc j * chunkBytes \<le> unat sz div chunkBytes * chunkBytes"
    using j by (simp only: Suc_le_eq mult_le_mono1)
  also have "\<dots> \<le> 4 * (unat sz div 4)"
    using whole_words_split[of "unat sz"] by linarith
  finally have "j * chunkBytes + chunkBytes \<le> 4 * (unat sz div 4)" by simp
  then have "\<forall>i < j * chunkBytes + chunkBytes. m (buffer + i) = ?pat ! (i mod chunkBytes)"
    using memcmpPattern_Returned_checked[OF assms r] by simp
  then have "cuMemcpyDtoH m (buffer + j * chunkBytes) chunkBytes = take chunkBytes ?pat"
    by (intro read_chunk) (simp_all add: length_pattern_bytes)
  then show "cuMemcpyDtoH m (buffer + j * chunkBytes) chunkBytes = ?pat"
    by (simp add: length_pattern_bytes)
qed

theorem fill_is_periodic_witness:
  "(5 * 1024 * 1024 + 7 :: u64) < 2 ^ 53
   \<and> (\<exists>mem'. memsetPattern (\<lambda>a. 0) 4096 (5 * 1024 * 1024 + 7) 0xBAADF00D = Some mem'
            \<and> mem' (4096 + 100) = mem' (4096 + 100 + chunkBytes)
            \<and> cuMemcpyDtoH mem' (4096 + 1 * chunkBytes) chunkBytes
                = bytes_of (xorshift2MBPattern 0xBAADF00D))"
proof -
  have h: "(5 * 1024 * 1024 + 7 :: u64) < 2 ^ 53" by simp
  have o: "100 + chunkBytes < unat (5 * 1024 * 1024 + 7 :: u64) div chunkBytes * chunkBytes"
    by (simp add: chunkBytes_def)
  have j: "1 < unat (5 * 1024 * 1024 + 7 :: u64) div chunkBytes"
    by (simp add: chunkBytes_def)
  from fill_is_periodic[OF h, of "\<lambda>a. 0" 4096 "0xBAADF00D"] obtain mem' where
    m: "memsetPattern (\<lambda>a. 0) 4096 (5 * 1024 * 1024 + 7) 0xBAADF00D = Some mem'"
    and p: "\<forall>off. off + chunkBytes < unat (5 * 1024 * 1024 + 7 :: u64) div chunkBytes * chunkBytes
                   \<longrightarrow> mem' (4096 + off) = mem' (4096 + off + chunkBytes)"
    and c: "\<forall>j < unat (5 * 1024 * 1024 + 7 :: u64) div chunkBytes.
                   cuMemcpyDtoH mem' (4096 + j * chunkBytes) chunkBytes
                   = bytes_of (xorshift2MBPattern 0xBAADF00D)"
    by blast
  have "mem' (4096 + 100) = mem' (4096 + 100 + chunkBytes)" using p o by blast
  moreover have "cuMemcpyDtoH mem' (4096 + 1 * chunkBytes) chunkBytes
                = bytes_of (xorshift2MBPattern 0xBAADF00D)" using c j by blast
  ultimately show ?thesis using h m by blast
qed

lemma xorshift2MBPattern_second: "xorshift2MBPattern seed ! 1 = xorshift (xorshift seed)"
proof -
  have "xorshift2MBPattern seed = xorshift_loop (Suc (Suc 524286)) seed"
    by (simp add: xorshift2MBPattern_def chunkBytes_def)
  then show ?thesis by (simp only: xorshift_loop.simps Let_def nth_Cons_Suc nth_Cons_0 One_nat_def)
qed

lemma pattern_BAADF00D:
  "xorshift2MBPattern 0xBAADF00D ! 0 = 0x9126193B"
  "xorshift2MBPattern 0xBAADF00D ! 1 = 0x122B575B"
proof -
  have a: "xorshift 0xBAADF00D = 0x9126193B" by (simp add: xorshift_def)
  have b: "xorshift 0x9126193B = 0x122B575B" by (simp add: xorshift_def)
  show "xorshift2MBPattern 0xBAADF00D ! 0 = 0x9126193B"
    by (simp only: xorshift2MBPattern_first a)
  show "xorshift2MBPattern 0xBAADF00D ! 1 = 0x122B575B"
    by (simp only: xorshift2MBPattern_second a b)
qed

lemma pattern_bytes_BAADF00D:
  "map ((!) (bytes_of (xorshift2MBPattern 0xBAADF00D))) [0, 1, 2, 3, 4] = [0x3B, 0x19, 0x26, 0x91, 0x5B]"
proof -
  let ?ws = "xorshift2MBPattern 0xBAADF00D"
  have l: "0 < length ?ws" "1 < length ?ws" by (simp_all add: length_xorshift2MBPattern)
  have "bytes_of ?ws ! (4 * 0 + 0) = 0x3B" "bytes_of ?ws ! (4 * 0 + 1) = 0x19"
       "bytes_of ?ws ! (4 * 0 + 2) = 0x26" "bytes_of ?ws ! (4 * 0 + 3) = 0x91"
       "bytes_of ?ws ! (4 * 1 + 0) = 0x5B"
    using l by (simp_all only: bytes_of_nth pattern_BAADF00D) (simp_all add: word_bytes_def)
  then show ?thesis by (simp add: numeral_2_eq_2)
qed

text \<open>
  Claim C1, at a buffer of 5 bytes at address 4096: \<^verbatim>\<open>memsetPattern\<close> with seed
  \<^verbatim>\<open>0xBAADF00D\<close> leaves the bytes 3B 19 26 91 5B; with the last byte (offset 4, after
  the one whole word) changed to 5C, \<^verbatim>\<open>memcmpPattern\<close> with the same size and seed
  returns instead of aborting.
\<close>

theorem memcmpPattern_masks_trailing_byte:
  "\<exists>mem'. memsetPattern (\<lambda>a. 0) 4096 5 0xBAADF00D = Some mem'
          \<and> map mem' [4096, 4097, 4098, 4099, 4100] = [0x3B, 0x19, 0x26, 0x91, 0x5B]
          \<and> memcmpPattern (mem'(4100 := 0x5C)) 4096 5 0xBAADF00D = Some Returned"
proof -
  let ?pat = "bytes_of (xorshift2MBPattern 0xBAADF00D)"
  let ?mem' = "filled (\<lambda>a. 0) 4096 (unat (5::u64)) ?pat"
  have h: "(5::u64) < 2 ^ 53" by simp
  have "\<forall>i < 4 * (unat (5::u64) div 4).
          (?mem'(4100 := 0x5C)) (4096 + i) = ?pat ! (i mod chunkBytes)"
    by (simp add: filled_def)
  then have r: "memcmpPattern (?mem'(4100 := 0x5C)) 4096 5 0xBAADF00D = Some Returned"
    using h by (intro memcmpPattern_returns)
  have b: "map ?mem' [4096, 4097, 4098, 4099, 4100] = [0x3B, 0x19, 0x26, 0x91, 0x5B]"
    using pattern_bytes_BAADF00D by (simp add: filled_def chunkBytes_def)
  show ?thesis
  proof (intro exI conjI)
    show "memsetPattern (\<lambda>a. 0) 4096 5 0xBAADF00D = Some ?mem'"
      by (rule memsetPattern_filled[OF h])
    show "map ?mem' [4096, 4097, 4098, 4099, 4100] = [0x3B, 0x19, 0x26, 0x91, 0x5B]"
      by (rule b)
    show "memcmpPattern (?mem'(4100 := 0x5C)) 4096 5 0xBAADF00D = Some Returned"
      by (rule r)
  qed
qed

end
